theory Spec2Isabelle
  imports Complex_Main "HOL-Library.Sublist"
begin

section \<open>Decoded JSON values\<close>

text \<open>
  \<^verbatim>\<open>encoding/json\<close> decodes into \<^verbatim>\<open>interface{}\<close>: \<^verbatim>\<open>nil\<close>, \<^verbatim>\<open>bool\<close>, \<^verbatim>\<open>float64\<close>,
  \<^verbatim>\<open>string\<close>, \<^verbatim>\<open>[]interface{}\<close> and \<^verbatim>\<open>map[string]interface{}\<close>. A decoded object is kept
  as an association list: lookups go through \<open>map_of\<close>, and the order of the list is the
  order in which a \<^verbatim>\<open>range\<close> over the map happens to visit the entries (Go leaves that order
  unspecified, and the list is arbitrary). A Go map has no repeated key, so the list that
  stands for one has distinct keys. The \<^verbatim>\<open>float64\<close> payload is never inspected by the
  program; every value JSON can denote is a real number.
\<close>

datatype json =
    JNull
  | JBool bool
  | JNum real
  | JStr string
  | JArr "json list"
  | JObj "(string \<times> json) list"

type_synonym jmap = "(string \<times> json) list"

text \<open>The dynamic type of a value, as \<^verbatim>\<open>%T\<close> prints it.\<close>

fun typeName :: "json \<Rightarrow> string" where
  "typeName JNull = ''<nil>''"
| "typeName (JBool b) = ''bool''"
| "typeName (JNum x) = ''float64''"
| "typeName (JStr s) = ''string''"
| "typeName (JArr xs) = ''[]interface {}''"
| "typeName (JObj kvs) = ''map[string]interface {}''"

section \<open>Errors and panics\<close>

text \<open>
  The \<^verbatim>\<open>error\<close> values the program builds with \<^verbatim>\<open>fmt.Errorf\<close>, one constructor for each
  format string, and \<open>External\<close> for the errors handed back by \<^verbatim>\<open>http.Get\<close>, the JSON
  decoder and \<^verbatim>\<open>os.Create\<close>.
\<close>

datatype error =
    KeyNotFound string
  | WrongType string json
  | Prefixed string error
  | External string

text \<open>
  The text of an error (\<^verbatim>\<open>%v\<close>). The parameter \<open>q\<close> is the \<^verbatim>\<open>%q\<close> verb, Go's quoting
  of a string.
\<close>

fun errorText :: "(string \<Rightarrow> string) \<Rightarrow> error \<Rightarrow> string" where
  "errorText q (KeyNotFound k) = ''key '' @ q k @ '' not found''"
| "errorText q (WrongType k sub) =
     ''key '' @ q k @ '' was '' @ typeName sub @ '', expected a string map''"
| "errorText q (Prefixed p e) = p @ '': '' @ errorText q e"
| "errorText q (External s) = s"

text \<open>
  A single-valued type assertion \<^verbatim>\<open>x.(T)\<close> panics when \<^verbatim>\<open>x\<close> does not hold a \<^verbatim>\<open>T\<close>, an
  index expression panics out of range, and \<^verbatim>\<open>strings.Repeat\<close> panics on a negative count.
\<close>

datatype panic = InterfaceConversion | IndexOutOfRange | NegativeRepeatCount

datatype 'a result = Ok 'a | Err error | Panic panic

definition bindR :: "'a result \<Rightarrow> ('a \<Rightarrow> 'b result) \<Rightarrow> 'b result" where
  "bindR r f = (case r of Ok x \<Rightarrow> f x | Err e \<Rightarrow> Err e | Panic p \<Rightarrow> Panic p)"

section \<open>unnest\<close>

fun unnest :: "jmap \<Rightarrow> string list \<Rightarrow> jmap result" where
  "unnest input [] = Ok input"
| "unnest input (k # keys) =
     (case map_of input k of
        None \<Rightarrow> Err (KeyNotFound k)
      | Some sub \<Rightarrow>
          (case sub of
             JObj next \<Rightarrow> unnest next keys
           | _ \<Rightarrow> Err (WrongType k sub)))"

section \<open>unpackMapping\<close>

text \<open>
  Indexing a map of \<^verbatim>\<open>interface{}\<close> values gives \<^verbatim>\<open>nil\<close> for a missing key; a decoded
  JSON \<^verbatim>\<open>null\<close> is the same \<^verbatim>\<open>nil\<close>.
\<close>

definition getKey :: "jmap \<Rightarrow> string \<Rightarrow> json" where
  "getKey m k = (case map_of m k of None \<Rightarrow> JNull | Some v \<Rightarrow> v)"

definition asList :: "json \<Rightarrow> json list result" where
  "asList v = (case v of JArr xs \<Rightarrow> Ok xs | _ \<Rightarrow> Panic InterfaceConversion)"

definition asMap :: "json \<Rightarrow> jmap result" where
  "asMap v = (case v of JObj kvs \<Rightarrow> Ok kvs | _ \<Rightarrow> Panic InterfaceConversion)"

definition indexAt :: "json list \<Rightarrow> nat \<Rightarrow> json result" where
  "indexAt xs i = (if i < length xs then Ok (xs ! i) else Panic IndexOutOfRange)"

text \<open>
  The two chained expressions that follow each \<open>unnest\<close> call:
  \<^verbatim>\<open>info["packet"].([]interface{})[1].([]interface{})[0].(map[string]interface{})["type"]\<close>
  and \<^verbatim>\<open>pType.([]interface{})[1].(map[string]interface{})["mappings"].(map[string]interface{})\<close>.
\<close>

definition leafMappings :: "jmap \<Rightarrow> jmap result" where
  "leafMappings info =
     bindR (asList (getKey info ''packet'')) (\<lambda>l1.
     bindR (indexAt l1 1) (\<lambda>e1.
     bindR (asList e1) (\<lambda>l2.
     bindR (indexAt l2 0) (\<lambda>e2.
     bindR (asMap e2) (\<lambda>field.
     let pType = getKey field ''type'' in
     bindR (asList pType) (\<lambda>l3.
     bindR (indexAt l3 1) (\<lambda>e3.
     bindR (asMap e3) (\<lambda>mapper.
     asMap (getKey mapper ''mappings'')))))))))"

text \<open>
  \<^verbatim>\<open>for k, v := range mappings { out[strcase.ToCamel(v.(string))] = k }\<close>. The
  normaliser \<^verbatim>\<open>strcase.ToCamel\<close> belongs to a library outside the repository and is the
  parameter \<open>toCamel\<close>.
\<close>

fun collectNames :: "(string \<Rightarrow> string) \<Rightarrow> jmap \<Rightarrow> (string \<rightharpoonup> string)
    \<Rightarrow> (string \<rightharpoonup> string) result" where
  "collectNames toCamel [] out = Ok out"
| "collectNames toCamel ((k, v) # rest) out =
     (case v of
        JStr s \<Rightarrow> collectNames toCamel rest (out(toCamel s \<mapsto> k))
      | _ \<Rightarrow> Panic InterfaceConversion)"

record duplexMappings =
  Clientbound :: "string \<rightharpoonup> string"
  Serverbound :: "string \<rightharpoonup> string"

definition unpackMapping :: "(string \<Rightarrow> string) \<Rightarrow> jmap \<Rightarrow> string \<Rightarrow> duplexMappings result" where
  "unpackMapping toCamel data gameState =
     bindR (unnest data [gameState, ''toClient'', ''types'']) (\<lambda>info.
     bindR (leafMappings info) (\<lambda>mappings.
     bindR (collectNames toCamel mappings Map.empty) (\<lambda>cb.
     bindR (unnest data [gameState, ''toServer'', ''types'']) (\<lambda>info.
     bindR (leafMappings info) (\<lambda>mappings.
     bindR (collectNames toCamel mappings Map.empty) (\<lambda>sb.
     Ok \<lparr>Clientbound = cb, Serverbound = sb\<rparr>))))))"

section \<open>Ranging over a map of strings\<close>

text \<open>
  Go does not fix the order in which \<^verbatim>\<open>range\<close> visits a map. Every loop over a
  \<^verbatim>\<open>map[string]string\<close> therefore takes the order as a parameter: a list of keys \<open>ord\<close>;
  the loop meets the entries of the map in the order their keys have in that list.
  \<open>visits ord m\<close> says that \<open>ord\<close> is such an order for \<open>m\<close>: no key twice, and every key
  of \<open>m\<close> in it.
\<close>

definition rangeOver :: "string list \<Rightarrow> (string \<rightharpoonup> string) \<Rightarrow> (string \<times> string) list" where
  "rangeOver ord m = concat (map (\<lambda>k. case m k of None \<Rightarrow> [] | Some v \<Rightarrow> [(k, v)]) ord)"

definition visits :: "string list \<Rightarrow> (string \<rightharpoonup> string) \<Rightarrow> bool" where
  "visits ord m \<longleftrightarrow> distinct ord \<and> dom m \<subseteq> set ord"

section \<open>EnsureUniqueNames\<close>

text \<open>Reading a \<^verbatim>\<open>map[string]string\<close> at a missing key gives the empty string.\<close>

definition getStr :: "(string \<rightharpoonup> string) \<Rightarrow> string \<Rightarrow> string" where
  "getStr m k = (case m k of None \<Rightarrow> [] | Some v \<Rightarrow> v)"

text \<open>The body of the second loop, for one key \<open>k\<close> of \<^verbatim>\<open>clientKeys\<close>.\<close>

definition resolveName :: "string \<Rightarrow> duplexMappings \<Rightarrow> duplexMappings" where
  "resolveName k m =
     (if Serverbound m k \<noteq> None then
        (let cVal = getStr (Clientbound m) k;
             sVal = getStr (Serverbound m) k;
             c = (Clientbound m)(k := None);
             s = (Serverbound m)(k := None)
         in \<lparr>Clientbound = c(k @ ''Clientbound'' \<mapsto> cVal),
             Serverbound = s(k @ ''Serverbound'' \<mapsto> sVal)\<rparr>)
      else m)"

definition EnsureUniqueNames :: "string list \<Rightarrow> duplexMappings \<Rightarrow> duplexMappings" where
  "EnsureUniqueNames ord m =
     (let clientKeys = foldl (\<lambda>ks kv. ks @ [fst kv]) [] (rangeOver ord (Clientbound m))
      in foldl (\<lambda>m' k. resolveName k m') m clientKeys)"

section \<open>protocolIDs and MaxLen\<close>

record protocolIDs =
  Login :: duplexMappings
  Play :: duplexMappings
  Status :: duplexMappings

text \<open>One iteration order for each of the six maps a function ranges over.\<close>

record rangeOrders =
  loginC :: "string list"
  loginS :: "string list"
  playC :: "string list"
  playS :: "string list"
  statusC :: "string list"
  statusS :: "string list"

definition ordersVisit :: "rangeOrders \<Rightarrow> protocolIDs \<Rightarrow> bool" where
  "ordersVisit os p \<longleftrightarrow>
     visits (loginC os) (Clientbound (Login p)) \<and> visits (loginS os) (Serverbound (Login p)) \<and>
     visits (playC os) (Clientbound (Play p)) \<and> visits (playS os) (Serverbound (Play p)) \<and>
     visits (statusC os) (Clientbound (Status p)) \<and> visits (statusS os) (Serverbound (Status p))"

definition longer :: "int \<Rightarrow> string \<times> string \<Rightarrow> int" where
  "longer mx kv = (if int (length (fst kv)) > mx then int (length (fst kv)) else mx)"

definition MaxLen :: "rangeOrders \<Rightarrow> protocolIDs \<Rightarrow> int" where
  "MaxLen os p =
     foldl (\<lambda>mx (m, oc, osv).
              foldl longer (foldl longer mx (rangeOver oc (Clientbound m)))
                (rangeOver osv (Serverbound m)))
       0
       [(Login p, loginC os, loginS os), (Play p, playC os, playS os),
        (Status p, statusC os, statusS os)]"

section \<open>downloadInfo\<close>

text \<open>
  The outcome of \<^verbatim>\<open>http.Get\<close> followed by the JSON decoder is an input of the model: an
  error, which \<open>downloadInfo\<close> hands back as it is, or the decoded document.
\<close>

definition downloadInfo :: "(string \<Rightarrow> string) \<Rightarrow> error + jmap
    \<Rightarrow> string list \<Rightarrow> string list \<Rightarrow> string list \<Rightarrow> protocolIDs result" where
  "downloadInfo toCamel fetched oLogin oPlay oStatus =
     (case fetched of
        Inl err \<Rightarrow> Err err
      | Inr data \<Rightarrow>
         (case unpackMapping toCamel data ''login'' of
            Err err \<Rightarrow> Err (Prefixed ''login'' err)
          | Panic pn \<Rightarrow> Panic pn
          | Ok login \<Rightarrow>
             (case unpackMapping toCamel data ''play'' of
                Err err \<Rightarrow> Err (Prefixed ''play'' err)
              | Panic pn \<Rightarrow> Panic pn
              | Ok play \<Rightarrow>
                 (case unpackMapping toCamel data ''status'' of
                    Err err \<Rightarrow> Err (Prefixed ''play'' err)
                  | Panic pn \<Rightarrow> Panic pn
                  | Ok status \<Rightarrow>
                      Ok \<lparr>Login = EnsureUniqueNames oLogin login,
                          Play = EnsureUniqueNames oPlay play,
                          Status = EnsureUniqueNames oStatus status\<rparr>))))"

section \<open>main\<close>

definition nl :: string where
  "nl = [CHR 0x0A]"

text \<open>\<^verbatim>\<open>strings.Repeat\<close> panics when the count is negative.\<close>

definition Repeat :: "string \<Rightarrow> int \<Rightarrow> panic + string" where
  "Repeat s count =
     (if count < 0 then Inl NegativeRepeatCount else Inr (concat (replicate (nat count) s)))"

text \<open>
  The text of one \<^verbatim>\<open>Fprintf(f, "  %s%s PktID = %s\n", k, strings.Repeat(" ", maxLen-len(k)), v)\<close>.
\<close>

definition declLine :: "int \<Rightarrow> string \<Rightarrow> string \<Rightarrow> panic + string" where
  "declLine maxLen k v =
     (case Repeat '' '' (maxLen - int (length k)) of
        Inl pn \<Rightarrow> Inl pn
      | Inr pad \<Rightarrow> Inr (''  '' @ k @ pad @ '' PktID = '' @ v @ nl))"

text \<open>
  The file is the list of the texts written so far, one for each print call. A statement
  takes the file and gives the file back, with the panic that stopped it if there was
  one; after a panic nothing more runs.
\<close>

type_synonym gofile = "string list"

definition Fprintln :: "string \<Rightarrow> gofile \<Rightarrow> gofile \<times> panic option" where
  "Fprintln s f = (f @ [s @ nl], None)"

fun writeDecls :: "int \<Rightarrow> (string \<times> string) list \<Rightarrow> gofile \<Rightarrow> gofile \<times> panic option" where
  "writeDecls maxLen [] f = (f, None)"
| "writeDecls maxLen ((k, v) # rest) f =
     (case declLine maxLen k v of
        Inl pn \<Rightarrow> (f, Some pn)
      | Inr line \<Rightarrow> writeDecls maxLen rest (f @ [line]))"

definition thenDo :: "gofile \<times> panic option \<Rightarrow> (gofile \<Rightarrow> gofile \<times> panic option) \<Rightarrow> gofile \<times> panic option" where
  "thenDo w stmt = (case snd w of None \<Rightarrow> stmt (fst w) | Some pn \<Rightarrow> w)"

text \<open>The statements of \<open>main\<close> from the first \<^verbatim>\<open>Fprintln\<close> to the last, in order.\<close>

definition writeFile :: "int \<Rightarrow> rangeOrders \<Rightarrow> protocolIDs \<Rightarrow> gofile \<times> panic option" where
  "writeFile maxLen ow pIDs =
     foldl thenDo ([], None)
       [Fprintln ''// This file is automatically generated by gen_packetIDs.go. DO NOT EDIT.'',
        Fprintln [],
        Fprintln ''package data'',
        Fprintln [],
        Fprintln ''//go:generate go run gen_packetIDs.go'',
        Fprintln [],
        Fprintln ''// PktID represents a packet ID used in the minecraft protocol.'',
        Fprintln ''type PktID int32'',
        Fprintln [],
        Fprintln ''// Valid PktID values.'',
        Fprintln ''const ('',
        Fprintln ''  // Clientbound packets for connections in the login state.'',
        writeDecls maxLen (rangeOver (loginC ow) (Clientbound (Login pIDs))),
        Fprintln ''  // Serverbound packets for connections in the login state.'',
        writeDecls maxLen (rangeOver (loginS ow) (Serverbound (Login pIDs))),
        Fprintln [],
        Fprintln ''  // Clientbound packets for connections in the play state.'',
        writeDecls maxLen (rangeOver (playC ow) (Clientbound (Play pIDs))),
        Fprintln ''  // Serverbound packets for connections in the play state.'',
        writeDecls maxLen (rangeOver (playS ow) (Serverbound (Play pIDs))),
        Fprintln [],
        Fprintln ''  // Clientbound packets used to respond to ping/status requests.'',
        writeDecls maxLen (rangeOver (statusC ow) (Clientbound (Status pIDs))),
        Fprintln ''  // Serverbound packets used to ping or read server status.'',
        writeDecls maxLen (rangeOver (statusS ow) (Serverbound (Status pIDs))),
        Fprintln [],
        Fprintln '')'']"

text \<open>
  How a run ends: the exit status, what went to the standard error stream, and the
  contents of \<^verbatim>\<open>packetIDs.go\<close> if the run created it (\<open>None\<close>: the run never called
  \<^verbatim>\<open>os.Create\<close> with success, and a file of an earlier run is as it was); or a panic.
\<close>

datatype outcome =
    Exited nat string "gofile option"
  | Crashed panic "gofile option"

text \<open>
  \<open>created\<close> is the outcome of \<^verbatim>\<open>os.Create\<close>: \<open>None\<close> when the file was created, or the
  error. Errors of the writes themselves are ignored by the program and not modelled.
\<close>

definition main :: "(string \<Rightarrow> string) \<Rightarrow> (string \<Rightarrow> string) \<Rightarrow> error + jmap
    \<Rightarrow> string list \<Rightarrow> string list \<Rightarrow> string list \<Rightarrow> rangeOrders \<Rightarrow> rangeOrders
    \<Rightarrow> error option \<Rightarrow> outcome" where
  "main toCamel q fetched oLogin oPlay oStatus om ow created =
     (case downloadInfo toCamel fetched oLogin oPlay oStatus of
        Err err \<Rightarrow> Exited 1 (''Error: '' @ errorText q err @ nl) None
      | Panic pn \<Rightarrow> Crashed pn None
      | Ok pIDs \<Rightarrow>
          (let maxLen = MaxLen om pIDs in
           case created of
             Some err \<Rightarrow> Exited 1 (''Error: '' @ errorText q err @ nl) None
           | None \<Rightarrow>
               (case writeFile maxLen ow pIDs of
                  (f, None) \<Rightarrow> Exited 0 [] (Some f)
                | (f, Some pn) \<Rightarrow> Crashed pn (Some f))))"

section \<open>Notions used to state the properties\<close>


text \<open>
  What it means, in the words of the description, to walk the keys in order: each key is
  present in the current map and holds a nested string-keyed map, which becomes the
  current map.
\<close>

inductive walks :: "jmap \<Rightarrow> string list \<Rightarrow> jmap \<Rightarrow> bool" where
  walks_done: "walks input [] input"
| walks_step: "map_of input k = Some (JObj next) \<Longrightarrow> walks next keys out
     \<Longrightarrow> walks input (k # keys) out"

text \<open>
  The hypothesis under which suffixing resolves every collision: no name of the other
  direction already is a shared name followed by the suffix.
\<close>

definition noSuffixClash :: "duplexMappings \<Rightarrow> bool" where
  "noSuffixClash m \<longleftrightarrow>
     (\<forall>k \<in> dom (Clientbound m) \<inter> dom (Serverbound m).
        k @ ''Clientbound'' \<notin> dom (Serverbound m) \<and> k @ ''Serverbound'' \<notin> dom (Clientbound m))"

text \<open>
  \<open>unsuffix suf x\<close> is \<open>k\<close> when \<open>x\<close> is \<open>k\<close> followed by \<open>suf\<close>. \<open>renamed suf R m\<close> is
  the map \<open>m\<close> after each key \<open>k\<close> of \<open>R\<close> has been deleted and put back as \<open>k @ suf\<close>.
\<close>

definition unsuffix :: "string \<Rightarrow> string \<Rightarrow> string option" where
  "unsuffix suf x =
     (if length suf \<le> length x \<and> drop (length x - length suf) x = suf
      then Some (take (length x - length suf) x) else None)"

definition renamed :: "string \<Rightarrow> string set \<Rightarrow> (string \<rightharpoonup> string) \<Rightarrow> (string \<rightharpoonup> string)" where
  "renamed suf R m =
     (\<lambda>x. case unsuffix suf x of
             Some k \<Rightarrow> if k \<in> R then m k else if x \<in> R then None else m x
           | None \<Rightarrow> if x \<in> R then None else m x)"

text \<open>
  Modelled from the spec: \<^verbatim>\<open>strcase.ToCamel\<close> is a function of a library outside the
  repository. The spec says of it that each raw name is converted to a canonical
  identifier-friendly form, capitalized, with no separators. This model drops the
  separators and puts the first letter and each letter after a separator in upper case.
  It is used for concrete inputs only; the properties are proved for every normaliser.
\<close>

definition isSeparator :: "char \<Rightarrow> bool" where
  "isSeparator c \<longleftrightarrow> c \<in> set ''_- .''"

definition upper :: "char \<Rightarrow> char" where
  "upper c =
     (case map_of (zip ''abcdefghijklmnopqrstuvwxyz'' ''ABCDEFGHIJKLMNOPQRSTUVWXYZ'') c of
        None \<Rightarrow> c
      | Some u \<Rightarrow> u)"

fun camel :: "bool \<Rightarrow> string \<Rightarrow> string" where
  "camel cap [] = []"
| "camel cap (c # cs) =
     (if isSeparator c then camel True cs
      else (if cap then upper c else c) # camel False cs)"

definition ToCamel :: "string \<Rightarrow> string" where
  "ToCamel s = camel True s"

text \<open>
  A schema document of the shape the upstream file has: under each phase, \<^verbatim>\<open>toClient\<close>
  and \<^verbatim>\<open>toServer\<close> hold \<^verbatim>\<open>types.packet\<close>, a container whose first field is a mapper with
  the table from packet id to packet name.
\<close>

definition packetEntry :: "jmap \<Rightarrow> json" where
  "packetEntry mappings =
     JArr [JStr ''container'',
           JArr [JObj [(''name'', JStr ''name''),
                       (''type'', JArr [JStr ''mapper'',
                                        JObj [(''type'', JStr ''varint''),
                                              (''mappings'', JObj mappings)]])]]]"

definition phaseSchema :: "jmap \<Rightarrow> jmap \<Rightarrow> json" where
  "phaseSchema cm sm =
     JObj [(''toClient'', JObj [(''types'', JObj [(''packet'', packetEntry cm)])]),
           (''toServer'', JObj [(''types'', JObj [(''packet'', packetEntry sm)])])]"

definition chatExample :: duplexMappings where
  "chatExample = \<lparr>Clientbound = [''SpawnEntity'' \<mapsto> ''5'', ''Chat'' \<mapsto> ''6''],
                  Serverbound = [''Chat'' \<mapsto> ''3'', ''UseItem'' \<mapsto> ''7'']\<rparr>"

definition suffixClashExample :: duplexMappings where
  "suffixClashExample = \<lparr>Clientbound = [''A'' \<mapsto> ''1''],
                         Serverbound = [''A'' \<mapsto> ''2'', ''AClientbound'' \<mapsto> ''3'']\<rparr>"

text \<open>Every name of the six resolved mappings.\<close>

definition allNames :: "protocolIDs \<Rightarrow> string set" where
  "allNames p =
     dom (Clientbound (Login p)) \<union> dom (Serverbound (Login p)) \<union>
     dom (Clientbound (Play p)) \<union> dom (Serverbound (Play p)) \<union>
     dom (Clientbound (Status p)) \<union> dom (Serverbound (Status p))"

text \<open>
  The generated file as the description has it. The identifier field of a declaration
  line is the name followed by spaces up to the alignment width; the line is the field,
  the type annotation and the id. A group is its comment line and one declaration line
  for each entry. The constant block holds the six groups in the fixed order, a blank line
  after each phase.
\<close>

definition padded :: "int \<Rightarrow> string \<Rightarrow> string" where
  "padded maxLen k = k @ replicate (nat (maxLen - int (length k))) (CHR '' '')"

definition decl :: "int \<Rightarrow> string \<times> string \<Rightarrow> string" where
  "decl maxLen kv = ''  '' @ padded maxLen (fst kv) @ '' PktID = '' @ snd kv @ nl"

definition group :: "string \<Rightarrow> int \<Rightarrow> (string \<times> string) list \<Rightarrow> string list" where
  "group comment maxLen entries = (comment @ nl) # map (decl maxLen) entries"

definition header :: "string list" where
  "header =
     [''// This file is automatically generated by gen_packetIDs.go. DO NOT EDIT.'' @ nl,
      nl,
      ''package data'' @ nl,
      nl,
      ''//go:generate go run gen_packetIDs.go'' @ nl,
      nl,
      ''// PktID represents a packet ID used in the minecraft protocol.'' @ nl,
      ''type PktID int32'' @ nl,
      nl,
      ''// Valid PktID values.'' @ nl]"

definition constBlock :: "int \<Rightarrow> (string \<times> string) list \<Rightarrow> (string \<times> string) list
    \<Rightarrow> (string \<times> string) list \<Rightarrow> (string \<times> string) list
    \<Rightarrow> (string \<times> string) list \<Rightarrow> (string \<times> string) list \<Rightarrow> string list" where
  "constBlock maxLen lc ls pc ps sc ss =
     [''const ('' @ nl] @
     group ''  // Clientbound packets for connections in the login state.'' maxLen lc @
     group ''  // Serverbound packets for connections in the login state.'' maxLen ls @
     [nl] @
     group ''  // Clientbound packets for connections in the play state.'' maxLen pc @
     group ''  // Serverbound packets for connections in the play state.'' maxLen ps @
     [nl] @
     group ''  // Clientbound packets used to respond to ping/status requests.'' maxLen sc @
     group ''  // Serverbound packets used to ping or read server status.'' maxLen ss @
     [nl] @
     ['')'' @ nl]"

text \<open>A line of the file is a declaration line when it has the type annotation in it.\<close>

definition isDecl :: "string \<Rightarrow> bool" where
  "isDecl line \<longleftrightarrow> sublist '' PktID = '' line"

text \<open>
  The table the fixed path reaches for one phase and one direction: the three keys that
  \<open>unnest\<close> walks, then the positional part.
\<close>

definition navigate :: "jmap \<Rightarrow> string \<Rightarrow> string \<Rightarrow> jmap result" where
  "navigate data gameState direction =
     bindR (unnest data [gameState, direction, ''types'']) leafMappings"

text \<open>The raw name of an entry of such a table, normalised.\<close>

definition entryName :: "(string \<Rightarrow> string) \<Rightarrow> string \<times> json \<Rightarrow> string" where
  "entryName toCamel kv = (case snd kv of JStr s \<Rightarrow> toCamel s | _ \<Rightarrow> [])"

text \<open>
  Go's \<^verbatim>\<open>%q\<close> on a string of printable ASCII characters: the string between double
  quotes, with a backslash before each double quote and backslash. The examples below use
  it on such strings only.
\<close>

definition quotePrintable :: "string \<Rightarrow> string" where
  "quotePrintable s =
     [CHR 0x22] @
     concat (map (\<lambda>c. if c = CHR 0x22 \<or> c = CHR 0x5C then [CHR 0x5C, c] else [c]) s) @
     [CHR 0x22]"

text \<open>
  Two schemas that break the path: one without the key \<^verbatim>\<open>packet\<close>, one whose login phase
  has no \<^verbatim>\<open>toServer\<close> key.
\<close>

definition noPacketDoc :: jmap where
  "noPacketDoc = [(''login'', JObj [(''toClient'', JObj [(''types'', JObj [])])])]"

definition noServerDoc :: jmap where
  "noServerDoc =
     [(''login'', JObj [(''toClient'', JObj [(''types'', JObj [(''packet'', packetEntry [])])])])]"

text \<open>
  The entries of the six resolved mappings in the order in which the writer meets them,
  and the file the description promises for them.
\<close>

definition writtenEntries :: "rangeOrders \<Rightarrow> protocolIDs \<Rightarrow> (string \<times> string) list" where
  "writtenEntries ow p =
     rangeOver (loginC ow) (Clientbound (Login p)) @ rangeOver (loginS ow) (Serverbound (Login p)) @
     rangeOver (playC ow) (Clientbound (Play p)) @ rangeOver (playS ow) (Serverbound (Play p)) @
     rangeOver (statusC ow) (Clientbound (Status p)) @ rangeOver (statusS ow) (Serverbound (Status p))"

definition generatedFile :: "int \<Rightarrow> rangeOrders \<Rightarrow> protocolIDs \<Rightarrow> string list" where
  "generatedFile maxLen ow p =
     header @ constBlock maxLen
       (rangeOver (loginC ow) (Clientbound (Login p))) (rangeOver (loginS ow) (Serverbound (Login p)))
       (rangeOver (playC ow) (Clientbound (Play p))) (rangeOver (playS ow) (Serverbound (Play p)))
       (rangeOver (statusC ow) (Clientbound (Status p))) (rangeOver (statusS ow) (Serverbound (Status p)))"

text \<open>
  A small schema: one packet in each direction of the login phase, a name shared by the
  two directions of the play phase, and nothing clientbound in the status phase.
\<close>

definition exampleDoc :: jmap where
  "exampleDoc =
     [(''login'', phaseSchema [(''0x00'', JStr ''disconnect'')] [(''0x00'', JStr ''login_start'')]),
      (''play'', phaseSchema [(''0x00'', JStr ''spawn_entity''), (''0x0e'', JStr ''chat'')]
                   [(''0x03'', JStr ''chat'')]),
      (''status'', phaseSchema [] [(''0x00'', JStr ''ping_start'')])]"

definition exampleIDs :: protocolIDs where
  "exampleIDs =
     \<lparr>Login = \<lparr>Clientbound = [''Disconnect'' \<mapsto> ''0x00''],
                Serverbound = [''LoginStart'' \<mapsto> ''0x00'']\<rparr>,
      Play = \<lparr>Clientbound = [''SpawnEntity'' \<mapsto> ''0x00'', ''ChatClientbound'' \<mapsto> ''0x0e''],
               Serverbound = [''ChatServerbound'' \<mapsto> ''0x03'']\<rparr>,
      Status = \<lparr>Clientbound = Map.empty, Serverbound = [''PingStart'' \<mapsto> ''0x00'']\<rparr>\<rparr>"

definition exampleOrders :: rangeOrders where
  "exampleOrders =
     \<lparr>loginC = [''Disconnect''], loginS = [''LoginStart''],
      playC = [''SpawnEntity'', ''ChatClientbound''], playS = [''ChatServerbound''],
      statusC = [], statusS = [''PingStart'']\<rparr>"

text \<open>A schema in which the status phase has no \<^verbatim>\<open>toClient\<close> key.\<close>

definition statusBrokenDoc :: jmap where
  "statusBrokenDoc =
     [(''login'', phaseSchema [(''0x00'', JStr ''disconnect'')] [(''0x00'', JStr ''login_start'')]),
      (''play'', phaseSchema [(''0x0e'', JStr ''chat'')] [(''0x03'', JStr ''chat'')]),
      (''status'', JObj [])]"

text \<open>A schema in which the login phase and the play phase both have a packet named disconnect.\<close>

definition crossPhaseDoc :: jmap where
  "crossPhaseDoc =
     [(''login'', phaseSchema [(''0x00'', JStr ''disconnect'')] []),
      (''play'', phaseSchema [(''0x19'', JStr ''disconnect'')] []),
      (''status'', phaseSchema [] [])]"

definition crossPhaseOrders :: rangeOrders where
  "crossPhaseOrders =
     \<lparr>loginC = [''Disconnect''], loginS = [], playC = [''Disconnect''], playS = [],
      statusC = [], statusS = []\<rparr>"

text \<open>
  The step of the key path at which \<open>unnest\<close> must stop: the keys before \<open>k\<close> walk to
  the map \<open>cur\<close>, and \<open>k\<close> is absent from \<open>cur\<close> or holds something that is not a
  string-keyed map. The error \<open>e\<close> names that key.
\<close>

definition offending :: "jmap \<Rightarrow> string list \<Rightarrow> error \<Rightarrow> bool" where
  "offending input keys e \<longleftrightarrow>
     (\<exists>pre k post cur. keys = pre @ k # post \<and> walks input pre cur \<and>
        (case map_of cur k of
           None \<Rightarrow> e = KeyNotFound k
         | Some sub \<Rightarrow> (\<forall>m. sub \<noteq> JObj m) \<and> e = WrongType k sub))"

text \<open>
  The shape the rest of the path expects under "types": the key "packet" holds a list
  whose second element is a list, whose first element is an object, whose key "type" holds
  a list, whose second element is an object, whose key "mappings" holds the table \<open>cm\<close>.
\<close>

definition leafShape :: "jmap \<Rightarrow> jmap \<Rightarrow> bool" where
  "leafShape info cm \<longleftrightarrow>
     (\<exists>l1 l2 field l3 mapper.
        map_of info ''packet'' = Some (JArr l1) \<and> 1 < length l1 \<and> l1 ! 1 = JArr l2 \<and>
        0 < length l2 \<and> l2 ! 0 = JObj field \<and>
        map_of field ''type'' = Some (JArr l3) \<and> 1 < length l3 \<and> l3 ! 1 = JObj mapper \<and>
        map_of mapper ''mappings'' = Some (JObj cm))"

definition namesAreStrings :: "jmap \<Rightarrow> bool" where
  "namesAreStrings cm \<longleftrightarrow> (\<forall>kv \<in> set cm. \<exists>s. snd kv = JStr s)"

text \<open>
  One direction of a phase is read when its three keys walk to a map of the expected shape
  whose table \<open>cm\<close> has only strings for names. It breaks at a later step when the three
  keys walk to a map that does not have the expected shape, or has it with a name that is
  not a string.
\<close>

definition readsTable :: "jmap \<Rightarrow> string \<Rightarrow> string \<Rightarrow> jmap \<Rightarrow> bool" where
  "readsTable data gameState direction cm \<longleftrightarrow>
     (\<exists>info. walks data [gameState, direction, ''types''] info \<and> leafShape info cm
        \<and> namesAreStrings cm)"

definition breaksLater :: "jmap \<Rightarrow> string \<Rightarrow> string \<Rightarrow> bool" where
  "breaksLater data gameState direction \<longleftrightarrow>
     (\<exists>info. walks data [gameState, direction, ''types''] info \<and>
        (\<forall>cm. leafShape info cm \<longrightarrow> \<not> namesAreStrings cm))"

text \<open>
  Two more schemas that break the path in the serverbound direction of the login phase,
  the clientbound direction being well-formed with an empty table: one without the key
  \<^verbatim>\<open>packet\<close> under the serverbound "types", one whose serverbound table gives a number
  for a name.
\<close>

definition noServerPacketDoc :: jmap where
  "noServerPacketDoc =
     [(''login'', JObj [(''toClient'', JObj [(''types'', JObj [(''packet'', packetEntry [])])]),
                        (''toServer'', JObj [(''types'', JObj [])])])]"

definition numberNameDoc :: jmap where
  "numberNameDoc = [(''login'', phaseSchema [] [(''0x00'', JNum 7)])]"

text \<open>A schema in which the login phase and the play phase both have the packet disconnect with the id 0x00.\<close>

definition sameLineDoc :: jmap where
  "sameLineDoc =
     [(''login'', phaseSchema [(''0x00'', JStr ''disconnect'')] []),
      (''play'', phaseSchema [(''0x00'', JStr ''disconnect'')] []),
      (''status'', phaseSchema [] [])]"

section \<open>Properties of unnest\<close>

lemma unnest_Ok_walks: "unnest input keys = Ok out \<Longrightarrow> walks input keys out"
proof (induction keys arbitrary: input)
  case Nil
  then show ?case by (simp add: walks_done)
next
  case (Cons k keys)
  then show ?case
    by (auto split: option.splits json.splits intro: walks_step)
qed

lemma walks_unnest_Ok: "walks input keys out \<Longrightarrow> unnest input keys = Ok out"
  by (induction rule: walks.induct) simp_all

lemma unnest_no_panic: "unnest input keys \<noteq> Panic p"
  by (induction keys arbitrary: input) (auto split: option.splits json.splits)

text \<open>
  C9. \<open>unnest\<close> returns the map reached after the last key exactly when the walk along
  the keys succeeds, returns an error exactly when it does not (some key is absent from the
  current map or holds something that is not a string-keyed map), returns the input
  unchanged for an empty key sequence, and never panics.
\<close>

theorem unnest_characterisation:
  "(unnest input keys = Ok out \<longleftrightarrow> walks input keys out)
   \<and> ((\<exists>e. unnest input keys = Err e) \<longleftrightarrow> \<not> (\<exists>out. walks input keys out))
   \<and> unnest input [] = Ok input
   \<and> unnest input keys \<noteq> Panic p"
proof -
  have a: "unnest input keys = Ok out \<longleftrightarrow> walks input keys out"
    using unnest_Ok_walks walks_unnest_Ok by blast
  have b: "(\<exists>e. unnest input keys = Err e) \<longleftrightarrow> \<not> (\<exists>out. walks input keys out)"
  proof (cases "unnest input keys")
    case (Ok m)
    then show ?thesis using unnest_Ok_walks by auto
  next
    case (Err e)
    then show ?thesis using walks_unnest_Ok by fastforce
  next
    case (Panic p')
    then show ?thesis using unnest_no_panic by blast
  qed
  show ?thesis using a b unnest_no_panic by simp
qed

theorem unnest_characterisation_witness:
  "unnest [(''a'', JObj [(''b'', JObj [])])] [''a'', ''b''] = Ok []
   \<and> walks [(''a'', JObj [(''b'', JObj [])])] [''a'', ''b''] []
   \<and> unnest [(''a'', JObj [(''b'', JObj [])])] [''a'', ''b''] \<noteq> Panic IndexOutOfRange"
  using unnest_characterisation [of "[(''a'', JObj [(''b'', JObj [])])]" "[''a'', ''b'']" "[]"
      IndexOutOfRange]
  by simp

section \<open>Properties of EnsureUniqueNames\<close>

lemma unsuffix_Some_iff: "unsuffix suf x = Some k \<longleftrightarrow> x = k @ suf"
  by (auto simp: unsuffix_def) (metis append_take_drop_id)

lemma unsuffix_append [simp]: "unsuffix suf (k @ suf) = Some k"
  by (simp add: unsuffix_Some_iff)

lemma renamed_empty [simp]: "renamed suf {} m = m"
  by (auto simp: renamed_def fun_eq_iff split: option.splits)

lemma renamed_suffixed: "k \<in> R \<Longrightarrow> renamed suf R m (k @ suf) = m k"
  by (simp add: renamed_def)

lemma renamed_other: "\<forall>k \<in> R. x \<noteq> k @ suf \<Longrightarrow> renamed suf R m x = (if x \<in> R then None else m x)"
  by (auto simp: renamed_def unsuffix_Some_iff split: option.splits)

lemma resolveName_step:
  assumes H: "noSuffixClash \<lparr>Clientbound = c0, Serverbound = s0\<rparr>"
    and R: "R \<subseteq> dom c0 \<inter> dom s0"
    and k: "k \<in> dom c0" "k \<notin> R"
  shows "resolveName k \<lparr>Clientbound = renamed ''Clientbound'' R c0,
                         Serverbound = renamed ''Serverbound'' R s0\<rparr>
       = \<lparr>Clientbound = renamed ''Clientbound'' (R \<union> ({k} \<inter> dom s0)) c0,
          Serverbound = renamed ''Serverbound'' (R \<union> ({k} \<inter> dom s0)) s0\<rparr>"
proof -
  have noS: "\<And>j. j \<in> R \<Longrightarrow> j @ ''Serverbound'' \<notin> dom c0"
    and noC: "\<And>j. j \<in> R \<Longrightarrow> j @ ''Clientbound'' \<notin> dom s0"
    using H R by (auto simp: noSuffixClash_def)
  have sk: "renamed ''Serverbound'' R s0 k = s0 k"
    using k noS by (subst renamed_other) auto
  show ?thesis
  proof (cases "k \<in> dom s0")
    case False
    then show ?thesis using sk by (auto simp: resolveName_def)
  next
    case True
    then have kS: "k \<in> dom c0 \<inter> dom s0" using k by simp
    have kC: "k @ ''Clientbound'' \<notin> dom s0" and kSb: "k @ ''Serverbound'' \<notin> dom c0"
      using H kS by (auto simp: noSuffixClash_def)
    have ck: "renamed ''Clientbound'' R c0 k = c0 k"
      using k noC True by (subst renamed_other) auto
    obtain cv sv where cv: "c0 k = Some cv" and sv: "s0 k = Some sv"
      using kS by auto
    let ?R' = "insert k R"
    have noC': "\<And>j. j \<in> ?R' \<Longrightarrow> j @ ''Clientbound'' \<notin> dom s0"
      using noC kC by auto
    have noS': "\<And>j. j \<in> ?R' \<Longrightarrow> j @ ''Serverbound'' \<notin> dom c0"
      using noS kSb by auto
    have C: "((renamed ''Clientbound'' R c0)(k := None))(k @ ''Clientbound'' \<mapsto> cv)
             = renamed ''Clientbound'' ?R' c0"
    proof
      fix x
      show "(((renamed ''Clientbound'' R c0)(k := None))(k @ ''Clientbound'' \<mapsto> cv)) x
            = renamed ''Clientbound'' ?R' c0 x"
      proof (cases "x = k @ ''Clientbound''")
        case True
        then show ?thesis using cv by (simp add: renamed_suffixed)
      next
        case nx: False
        show ?thesis
        proof (cases "x = k")
          case True
          have "\<forall>j \<in> ?R'. k \<noteq> j @ ''Clientbound''"
            using noC' \<open>k \<in> dom s0\<close> by metis
          then show ?thesis using True nx by (simp add: renamed_other)
        next
          case False
          then show ?thesis using nx
            by (auto simp: renamed_def unsuffix_Some_iff split: option.splits)
        qed
      qed
    qed
    have S: "((renamed ''Serverbound'' R s0)(k := None))(k @ ''Serverbound'' \<mapsto> sv)
             = renamed ''Serverbound'' ?R' s0"
    proof
      fix x
      show "(((renamed ''Serverbound'' R s0)(k := None))(k @ ''Serverbound'' \<mapsto> sv)) x
            = renamed ''Serverbound'' ?R' s0 x"
      proof (cases "x = k @ ''Serverbound''")
        case True
        then show ?thesis using sv by (simp add: renamed_suffixed)
      next
        case nx: False
        show ?thesis
        proof (cases "x = k")
          case True
          have "\<forall>j \<in> ?R'. k \<noteq> j @ ''Serverbound''"
            using noS' \<open>k \<in> dom c0\<close> by metis
          then show ?thesis using True nx by (simp add: renamed_other)
        next
          case False
          then show ?thesis using nx
            by (auto simp: renamed_def unsuffix_Some_iff split: option.splits)
        qed
      qed
    qed
    show ?thesis
      using True sk ck cv sv C S by (simp add: resolveName_def getStr_def Let_def)
  qed
qed

lemma resolve_fold:
  assumes H: "noSuffixClash \<lparr>Clientbound = c0, Serverbound = s0\<rparr>"
  shows "R \<subseteq> dom c0 \<inter> dom s0 \<Longrightarrow> distinct ks \<Longrightarrow> set ks \<subseteq> dom c0 \<Longrightarrow> set ks \<inter> R = {} \<Longrightarrow>
     foldl (\<lambda>m' k. resolveName k m')
       \<lparr>Clientbound = renamed ''Clientbound'' R c0, Serverbound = renamed ''Serverbound'' R s0\<rparr> ks
     = \<lparr>Clientbound = renamed ''Clientbound'' (R \<union> (set ks \<inter> dom s0)) c0,
        Serverbound = renamed ''Serverbound'' (R \<union> (set ks \<inter> dom s0)) s0\<rparr>"
proof (induction ks arbitrary: R)
  case Nil
  then show ?case by simp
next
  case (Cons k ks)
  let ?R' = "R \<union> ({k} \<inter> dom s0)"
  have step: "resolveName k \<lparr>Clientbound = renamed ''Clientbound'' R c0,
                         Serverbound = renamed ''Serverbound'' R s0\<rparr>
       = \<lparr>Clientbound = renamed ''Clientbound'' ?R' c0,
          Serverbound = renamed ''Serverbound'' ?R' s0\<rparr>"
    using resolveName_step [OF H Cons.prems(1)] Cons.prems by auto
  have "foldl (\<lambda>m' k. resolveName k m')
       \<lparr>Clientbound = renamed ''Clientbound'' ?R' c0, Serverbound = renamed ''Serverbound'' ?R' s0\<rparr> ks
     = \<lparr>Clientbound = renamed ''Clientbound'' (?R' \<union> (set ks \<inter> dom s0)) c0,
        Serverbound = renamed ''Serverbound'' (?R' \<union> (set ks \<inter> dom s0)) s0\<rparr>"
    using Cons.prems by (intro Cons.IH) auto
  moreover have "?R' \<union> (set ks \<inter> dom s0) = R \<union> (set (k # ks) \<inter> dom s0)"
    by auto
  ultimately show ?case using step by simp
qed

section \<open>Properties of ranging\<close>

lemma map_fst_rangeOver: "map fst (rangeOver ord m) = filter (\<lambda>k. m k \<noteq> None) ord"
  by (induction ord) (auto simp: rangeOver_def split: option.splits)

lemma set_rangeOver: "set (rangeOver ord m) = {(k, v). k \<in> set ord \<and> m k = Some v}"
  by (induction ord) (auto simp: rangeOver_def split: option.splits)

lemma distinct_rangeOver_keys: "distinct ord \<Longrightarrow> distinct (map fst (rangeOver ord m))"
  by (simp add: map_fst_rangeOver)

lemma visits_keys: "visits ord m \<Longrightarrow> set (map fst (rangeOver ord m)) = dom m"
  by (auto simp: map_fst_rangeOver visits_def)

lemma visits_entries: "visits ord m \<Longrightarrow> set (rangeOver ord m) = {(k, v). m k = Some v}"
  by (auto simp: set_rangeOver visits_def)

lemma visits_length: "visits ord m \<Longrightarrow> length (rangeOver ord m) = card (dom m)"
proof -
  assume v: "visits ord m"
  have "length (rangeOver ord m) = length (map fst (rangeOver ord m))" by simp
  also have "\<dots> = card (set (map fst (rangeOver ord m)))"
    using v distinct_rangeOver_keys distinct_card unfolding visits_def by metis
  finally show ?thesis using v by (simp only: visits_keys)
qed

lemma visits_map_of: "visits ord m \<Longrightarrow> map_of (rangeOver ord m) = m"
proof
  fix x
  assume v: "visits ord m"
  have d: "distinct (map fst (rangeOver ord m))"
    using v by (simp add: distinct_rangeOver_keys visits_def)
  show "map_of (rangeOver ord m) x = m x"
  proof (cases "m x")
    case None
    then have "x \<notin> fst ` set (rangeOver ord m)"
      by (auto simp: set_rangeOver)
    then show ?thesis using None by (simp add: map_of_eq_None_iff)
  next
    case (Some v')
    then have "(x, v') \<in> set (rangeOver ord m)"
      using v by (auto simp: visits_entries)
    then show ?thesis using Some d by simp
  qed
qed

lemma rangeOver_empty [simp]: "rangeOver ord Map.empty = []"
  by (induction ord) (auto simp: rangeOver_def)

lemma collect_keys: "foldl (\<lambda>ks kv. ks @ [fst kv]) acc xs = acc @ map fst xs"
  by (induction xs arbitrary: acc) auto

lemma EnsureUniqueNames_closed:
  assumes v: "visits ord (Clientbound m)" and H: "noSuffixClash m"
  shows "EnsureUniqueNames ord m =
     \<lparr>Clientbound = renamed ''Clientbound'' (dom (Clientbound m) \<inter> dom (Serverbound m)) (Clientbound m),
      Serverbound = renamed ''Serverbound'' (dom (Clientbound m) \<inter> dom (Serverbound m)) (Serverbound m)\<rparr>"
proof -
  let ?c = "Clientbound m" and ?s = "Serverbound m"
  let ?ks = "map fst (rangeOver ord ?c)"
  have m: "\<lparr>Clientbound = ?c, Serverbound = ?s\<rparr> = m" by simp
  have H': "noSuffixClash \<lparr>Clientbound = ?c, Serverbound = ?s\<rparr>"
    using H by (simp add: noSuffixClash_def)
  have d: "distinct ?ks" using v by (simp add: distinct_rangeOver_keys visits_def)
  have ks: "set ?ks = dom ?c" using v by (rule visits_keys)
  have "foldl (\<lambda>m' k. resolveName k m')
       \<lparr>Clientbound = renamed ''Clientbound'' {} ?c, Serverbound = renamed ''Serverbound'' {} ?s\<rparr> ?ks
     = \<lparr>Clientbound = renamed ''Clientbound'' ({} \<union> (set ?ks \<inter> dom ?s)) ?c,
        Serverbound = renamed ''Serverbound'' ({} \<union> (set ?ks \<inter> dom ?s)) ?s\<rparr>"
    using d ks by (intro resolve_fold [OF H']) auto
  then have "foldl (\<lambda>m' k. resolveName k m') m ?ks
     = \<lparr>Clientbound = renamed ''Clientbound'' (dom ?c \<inter> dom ?s) ?c,
        Serverbound = renamed ''Serverbound'' (dom ?c \<inter> dom ?s) ?s\<rparr>"
    using ks by (simp add: m)
  then show ?thesis by (simp add: EnsureUniqueNames_def collect_keys)
qed

lemma suffixes_differ: "j @ ''Clientbound'' \<noteq> k @ ''Serverbound''"
proof
  assume "j @ ''Clientbound'' = k @ ''Serverbound''"
  then have "drop (length (j @ ''Clientbound'') - 11) (j @ ''Clientbound'')
           = drop (length (k @ ''Serverbound'') - 11) (k @ ''Serverbound'')"
    by simp
  then show False by simp
qed

lemma renamed_dom_disjoint:
  assumes H: "noSuffixClash \<lparr>Clientbound = c, Serverbound = s\<rparr>"
  shows "dom (renamed ''Clientbound'' (dom c \<inter> dom s) c) \<inter> dom (renamed ''Serverbound'' (dom c \<inter> dom s) s) = {}"
proof -
  let ?R = "dom c \<inter> dom s"
  have noS: "\<And>j. j \<in> ?R \<Longrightarrow> j @ ''Serverbound'' \<notin> dom c"
    and noC: "\<And>j. j \<in> ?R \<Longrightarrow> j @ ''Clientbound'' \<notin> dom s"
    using H by (auto simp: noSuffixClash_def)
  {
    fix x a b
    assume a: "renamed ''Clientbound'' ?R c x = Some a" and b: "renamed ''Serverbound'' ?R s x = Some b"
    have False
    proof (cases "\<exists>j \<in> ?R. x = j @ ''Clientbound''")
      case True
      then obtain j where j: "j \<in> ?R" "x = j @ ''Clientbound''" by blast
      have "\<forall>k \<in> ?R. x \<noteq> k @ ''Serverbound''" by (simp add: j suffixes_differ)
      then have "renamed ''Serverbound'' ?R s x = (if x \<in> ?R then None else s x)"
        by (rule renamed_other)
      moreover have "s x = None" using noC j by blast
      ultimately show False using b by (simp split: if_splits)
    next
      case False
      then have c1: "renamed ''Clientbound'' ?R c x = (if x \<in> ?R then None else c x)"
        by (intro renamed_other) blast
      have xR: "x \<notin> ?R"
      proof
        assume "x \<in> ?R"
        then have "renamed ''Clientbound'' ?R c x = None" using c1 by (simp only: if_True)
        then show False using a by simp
      qed
      have c2: "renamed ''Clientbound'' ?R c x = c x" using c1 xR by (simp only: if_False)
      have "c x = Some a" using c2 a by simp
      then have xc: "x \<in> dom c" "x \<notin> dom s" using xR by auto
      have "\<forall>k \<in> ?R. x \<noteq> k @ ''Serverbound''" using noS xc by blast
      then have "renamed ''Serverbound'' ?R s x = (if x \<in> ?R then None else s x)"
        by (rule renamed_other)
      then have "renamed ''Serverbound'' ?R s x = s x" using xR by (simp only: if_False)
      moreover have "s x = None" using xc(2) by (simp add: domIff)
      ultimately show False using b by simp
    qed
  }
  then show ?thesis by (auto simp: dom_def) 
qed

lemma EnsureUniqueNames_disjoint:
  assumes "visits ord (Clientbound m)" and "noSuffixClash m"
  shows "dom (Clientbound (EnsureUniqueNames ord m)) \<inter> dom (Serverbound (EnsureUniqueNames ord m)) = {}"
proof -
  have "noSuffixClash \<lparr>Clientbound = Clientbound m, Serverbound = Serverbound m\<rparr>"
    using assms(2) by (simp add: noSuffixClash_def)
  then show ?thesis
    using renamed_dom_disjoint [of "Clientbound m" "Serverbound m"]
    by (simp add: EnsureUniqueNames_closed [OF assms])
qed

text \<open>
  C3 (as amended). Let the clientbound and the serverbound mapping of a phase be such that
  no shared name followed by "Clientbound" is a serverbound name and no shared name followed
  by "Serverbound" is a clientbound name. Then, whatever the order in which the keys are
  visited, after \<open>EnsureUniqueNames\<close> the two mappings share no key, and each name they
  shared is in the clientbound mapping with the suffix "Clientbound" and in the serverbound
  mapping with the suffix "Serverbound", with the id it had.
\<close>

theorem EnsureUniqueNames_resolves:
  assumes "visits ord (Clientbound m)" and "noSuffixClash m"
  shows "dom (Clientbound (EnsureUniqueNames ord m)) \<inter> dom (Serverbound (EnsureUniqueNames ord m)) = {}
     \<and> (\<forall>k \<in> dom (Clientbound m) \<inter> dom (Serverbound m).
          Clientbound (EnsureUniqueNames ord m) (k @ ''Clientbound'') = Clientbound m k
        \<and> Serverbound (EnsureUniqueNames ord m) (k @ ''Serverbound'') = Serverbound m k)"
  using assms EnsureUniqueNames_disjoint [OF assms]
  by (simp add: EnsureUniqueNames_closed renamed_suffixed)

theorem EnsureUniqueNames_resolves_witness:
  "visits [''SpawnEntity'', ''Chat''] (Clientbound chatExample)
   \<and> noSuffixClash chatExample
   \<and> dom (Clientbound chatExample) \<inter> dom (Serverbound chatExample) = {''Chat''}
   \<and> dom (Clientbound (EnsureUniqueNames [''SpawnEntity'', ''Chat''] chatExample))
       \<inter> dom (Serverbound (EnsureUniqueNames [''SpawnEntity'', ''Chat''] chatExample)) = {}
   \<and> Clientbound (EnsureUniqueNames [''SpawnEntity'', ''Chat''] chatExample) ''ChatClientbound'' = Some ''6''
   \<and> Serverbound (EnsureUniqueNames [''SpawnEntity'', ''Chat''] chatExample) ''ChatServerbound'' = Some ''3''"
proof -
  have v: "visits [''SpawnEntity'', ''Chat''] (Clientbound chatExample)"
    by (simp add: visits_def chatExample_def)
  have H: "noSuffixClash chatExample"
    by (simp add: noSuffixClash_def chatExample_def)
  have s: "dom (Clientbound chatExample) \<inter> dom (Serverbound chatExample) = {''Chat''}"
    by (simp add: chatExample_def)
  show ?thesis
    using EnsureUniqueNames_resolves [OF v H] v H s
    by (simp add: chatExample_def)
qed

theorem EnsureUniqueNames_counterexample:
  "visits [''A''] (Clientbound suffixClashExample)
   \<and> ''A'' \<in> dom (Clientbound suffixClashExample) \<inter> dom (Serverbound suffixClashExample)
   \<and> ''AClientbound'' \<in> dom (Clientbound (EnsureUniqueNames [''A''] suffixClashExample))
                        \<inter> dom (Serverbound (EnsureUniqueNames [''A''] suffixClashExample))"
  by (simp add: visits_def suffixClashExample_def EnsureUniqueNames_def rangeOver_def
      resolveName_def getStr_def)

section \<open>Properties of MaxLen\<close>

lemma foldl_longer:
  "foldl longer mx kvs = Max (insert mx ((\<lambda>kv. int (length (fst kv))) ` set kvs))"
proof (induction kvs arbitrary: mx)
  case Nil
  then show ?case by simp
next
  case (Cons kv kvs)
  let ?S = "(\<lambda>kv. int (length (fst kv))) ` set kvs"
  have "longer mx kv = max mx (int (length (fst kv)))"
    by (simp add: longer_def max_def)
  then have "foldl longer mx (kv # kvs) = Max (insert (max mx (int (length (fst kv)))) ?S)"
    using Cons.IH by simp
  also have "\<dots> = Max (insert mx (insert (int (length (fst kv))) ?S))"
    by (cases "?S = {}") (simp_all add: max.assoc)
  finally show ?case by (simp add: insert_commute)
qed

lemma MaxLen_append:
  "MaxLen os p =
     foldl longer 0
       (rangeOver (loginC os) (Clientbound (Login p)) @ rangeOver (loginS os) (Serverbound (Login p)) @
        rangeOver (playC os) (Clientbound (Play p)) @ rangeOver (playS os) (Serverbound (Play p)) @
        rangeOver (statusC os) (Clientbound (Status p)) @ rangeOver (statusS os) (Serverbound (Status p)))"
  by (simp add: MaxLen_def)

lemma ordersVisit_names:
  assumes "ordersVisit os p"
  shows "fst ` set
       (rangeOver (loginC os) (Clientbound (Login p)) @ rangeOver (loginS os) (Serverbound (Login p)) @
        rangeOver (playC os) (Clientbound (Play p)) @ rangeOver (playS os) (Serverbound (Play p)) @
        rangeOver (statusC os) (Clientbound (Status p)) @ rangeOver (statusS os) (Serverbound (Status p)))
     = allNames p"
proof -
  have "\<And>ord m. visits ord m \<Longrightarrow> fst ` set (rangeOver ord m) = dom m"
    using visits_keys by simp
  then show ?thesis
    using assms by (simp add: ordersVisit_def allNames_def image_Un Un_assoc)
qed

lemma finite_allNames: "ordersVisit os p \<Longrightarrow> finite (allNames p)"
  using ordersVisit_names [of os p] by (metis List.finite_set finite_imageI)

lemma MaxLen_Max:
  assumes "ordersVisit os p"
  shows "MaxLen os p = Max (insert 0 ((\<lambda>k. int (length k)) ` allNames p))"
proof -
  let ?es = "rangeOver (loginC os) (Clientbound (Login p)) @ rangeOver (loginS os) (Serverbound (Login p)) @
        rangeOver (playC os) (Clientbound (Play p)) @ rangeOver (playS os) (Serverbound (Play p)) @
        rangeOver (statusC os) (Clientbound (Status p)) @ rangeOver (statusS os) (Serverbound (Status p))"
  have "(\<lambda>kv. int (length (fst kv))) ` set ?es = (\<lambda>k. int (length k)) ` (fst ` set ?es)"
    by (simp only: image_image)
  also have "\<dots> = (\<lambda>k. int (length k)) ` allNames p"
    using ordersVisit_names [OF assms] by simp
  finally show ?thesis
    by (simp only: MaxLen_append foldl_longer)
qed

lemma MaxLen_bound:
  assumes "ordersVisit os p" and "k \<in> allNames p"
  shows "int (length k) \<le> MaxLen os p"
proof -
  have "finite (insert 0 ((\<lambda>k. int (length k)) ` allNames p))"
    using finite_allNames [OF assms(1)] by simp
  then show ?thesis
    using assms(2) by (simp only: MaxLen_Max [OF assms(1)]) (rule Max_ge, auto)
qed

section \<open>Properties of the writer\<close>

lemma Repeat_space: "0 \<le> n \<Longrightarrow> Repeat '' '' n = Inr (replicate (nat n) (CHR '' ''))"
proof -
  have "concat (replicate m '' '') = replicate m (CHR '' '')" for m
    by (induction m) simp_all
  then show "0 \<le> n \<Longrightarrow> Repeat '' '' n = Inr (replicate (nat n) (CHR '' ''))"
    by (simp add: Repeat_def)
qed

lemma declLine_ok: "int (length k) \<le> maxLen \<Longrightarrow> declLine maxLen k v = Inr (decl maxLen (k, v))"
  by (simp add: declLine_def Repeat_space decl_def padded_def)

lemma declLine_panics: "maxLen < int (length k) \<Longrightarrow> declLine maxLen k v = Inl NegativeRepeatCount"
  by (simp add: declLine_def Repeat_def)

lemma length_padded: "int (length k) \<le> maxLen \<Longrightarrow> int (length (padded maxLen k)) = maxLen"
  by (simp add: padded_def)

lemma writeDecls_ok:
  "\<forall>kv \<in> set kvs. int (length (fst kv)) \<le> maxLen \<Longrightarrow>
     writeDecls maxLen kvs f = (f @ map (decl maxLen) kvs, None)"
  by (induction kvs arbitrary: f) (auto simp: declLine_ok)

lemma rangeOver_bound:
  "\<forall>k \<in> dom m. int (length k) \<le> maxLen \<Longrightarrow> \<forall>kv \<in> set (rangeOver ord m). int (length (fst kv)) \<le> maxLen"
  by (auto simp: set_rangeOver)

lemma thenDo_running: "thenDo (f, None) stmt = stmt f"
  by (simp add: thenDo_def)

lemma writeFile_ok:
  assumes "ordersVisit om p"
  shows "writeFile (MaxLen om p) ow p =
     (header @ constBlock (MaxLen om p)
        (rangeOver (loginC ow) (Clientbound (Login p))) (rangeOver (loginS ow) (Serverbound (Login p)))
        (rangeOver (playC ow) (Clientbound (Play p))) (rangeOver (playS ow) (Serverbound (Play p)))
        (rangeOver (statusC ow) (Clientbound (Status p))) (rangeOver (statusS ow) (Serverbound (Status p))),
      None)"
proof -
  let ?mx = "MaxLen om p"
  have b: "\<forall>k \<in> dom m. int (length k) \<le> ?mx" if "dom m \<subseteq> allNames p" for m
  proof
    fix k
    assume "k \<in> dom m"
    with that have "k \<in> allNames p" by (rule subsetD)
    then show "int (length k) \<le> ?mx" by (rule MaxLen_bound [OF assms])
  qed
  have w: "writeDecls ?mx (rangeOver ord m) f = (f @ map (decl ?mx) (rangeOver ord m), None)"
    if "dom m \<subseteq> allNames p" for m ord f
    by (rule writeDecls_ok, rule rangeOver_bound, rule b, rule that)
  have w1: "\<And>ord f. writeDecls ?mx (rangeOver ord (Clientbound (Login p))) f
      = (f @ map (decl ?mx) (rangeOver ord (Clientbound (Login p))), None)"
    by (rule w) (auto simp add: allNames_def)
  have w2: "\<And>ord f. writeDecls ?mx (rangeOver ord (Serverbound (Login p))) f
      = (f @ map (decl ?mx) (rangeOver ord (Serverbound (Login p))), None)"
    by (rule w) (auto simp add: allNames_def)
  have w3: "\<And>ord f. writeDecls ?mx (rangeOver ord (Clientbound (Play p))) f
      = (f @ map (decl ?mx) (rangeOver ord (Clientbound (Play p))), None)"
    by (rule w) (auto simp add: allNames_def)
  have w4: "\<And>ord f. writeDecls ?mx (rangeOver ord (Serverbound (Play p))) f
      = (f @ map (decl ?mx) (rangeOver ord (Serverbound (Play p))), None)"
    by (rule w) (auto simp add: allNames_def)
  have w5: "\<And>ord f. writeDecls ?mx (rangeOver ord (Clientbound (Status p))) f
      = (f @ map (decl ?mx) (rangeOver ord (Clientbound (Status p))), None)"
    by (rule w) (auto simp add: allNames_def)
  have w6: "\<And>ord f. writeDecls ?mx (rangeOver ord (Serverbound (Status p))) f
      = (f @ map (decl ?mx) (rangeOver ord (Serverbound (Status p))), None)"
    by (rule w) (auto simp add: allNames_def)
  show ?thesis
    unfolding writeFile_def header_def constBlock_def group_def
    by (simp add: thenDo_running Fprintln_def w1 w2 w3 w4 w5 w6)
qed

lemma main_writes:
  assumes "downloadInfo toCamel fetched oLogin oPlay oStatus = Ok p" and "ordersVisit om p"
  shows "main toCamel q fetched oLogin oPlay oStatus om ow None =
     Exited 0 [] (Some (header @ constBlock (MaxLen om p)
        (rangeOver (loginC ow) (Clientbound (Login p))) (rangeOver (loginS ow) (Serverbound (Login p)))
        (rangeOver (playC ow) (Clientbound (Play p))) (rangeOver (playS ow) (Serverbound (Play p)))
        (rangeOver (statusC ow) (Clientbound (Status p))) (rangeOver (statusS ow) (Serverbound (Status p)))))"
  using assms(1) by (simp add: main_def writeFile_ok [OF assms(2)])

lemma isDecl_decl: "isDecl (decl maxLen kv)"
proof -
  have "decl maxLen kv = (''  '' @ padded maxLen (fst kv)) @ '' PktID = '' @ (snd kv @ nl)"
    by (simp add: decl_def)
  then show ?thesis unfolding isDecl_def by (simp only: sublist_appendI)
qed

lemma filter_isDecl_group:
  "\<not> isDecl (comment @ nl) \<Longrightarrow> filter isDecl (group comment maxLen entries) = map (decl maxLen) entries"
  by (simp add: group_def isDecl_decl)

lemma not_isDecl_fixed:
  "\<not> isDecl nl"
  "\<not> isDecl (''const ('' @ nl)"
  "\<not> isDecl ('')'' @ nl)"
  "\<not> isDecl (''  // Clientbound packets for connections in the login state.'' @ nl)"
  "\<not> isDecl (''  // Serverbound packets for connections in the login state.'' @ nl)"
  "\<not> isDecl (''  // Clientbound packets for connections in the play state.'' @ nl)"
  "\<not> isDecl (''  // Serverbound packets for connections in the play state.'' @ nl)"
  "\<not> isDecl (''  // Clientbound packets used to respond to ping/status requests.'' @ nl)"
  "\<not> isDecl (''  // Serverbound packets used to ping or read server status.'' @ nl)"
  unfolding isDecl_def nl_def by code_simp+

lemma filter_isDecl_header: "filter isDecl header = []"
  unfolding isDecl_def nl_def header_def by code_simp

lemma filter_isDecl_file:
  "filter isDecl (header @ constBlock maxLen lc ls pc ps sc ss)
     = map (decl maxLen) (lc @ ls @ pc @ ps @ sc @ ss)"
  unfolding constBlock_def
  by (simp only: filter_append filter.simps filter_isDecl_header filter_isDecl_group
      not_isDecl_fixed if_False append_Nil append_Nil2 map_append append_assoc simp_thms)

section \<open>Properties of unpackMapping\<close>

lemma bindR_Ok_iff: "bindR r f = Ok y \<longleftrightarrow> (\<exists>x. r = Ok x \<and> f x = Ok y)"
  by (cases r) (simp_all add: bindR_def)

lemma bindR_Err_iff: "bindR r f = Err e \<longleftrightarrow> r = Err e \<or> (\<exists>x. r = Ok x \<and> f x = Err e)"
  by (cases r) (simp_all add: bindR_def)

lemma asList_no_Err: "asList v \<noteq> Err e"
  by (simp add: asList_def split: json.splits)

lemma asMap_no_Err: "asMap v \<noteq> Err e"
  by (simp add: asMap_def split: json.splits)

lemma indexAt_no_Err: "indexAt xs i \<noteq> Err e"
  by (simp add: indexAt_def)

lemma leafMappings_no_Err: "leafMappings info \<noteq> Err e"
  by (simp add: leafMappings_def Let_def bindR_Err_iff asList_no_Err asMap_no_Err indexAt_no_Err)

lemma collectNames_no_Err: "collectNames toCamel kvs out \<noteq> Err e"
proof (induction kvs arbitrary: out)
  case Nil
  then show ?case by simp
next
  case (Cons kv kvs)
  then show ?case by (cases kv) (simp split: json.splits)
qed

lemma unpackMapping_navigate:
  "unpackMapping toCamel data gs =
     bindR (navigate data gs ''toClient'') (\<lambda>cm.
     bindR (collectNames toCamel cm Map.empty) (\<lambda>cb.
     bindR (navigate data gs ''toServer'') (\<lambda>sm.
     bindR (collectNames toCamel sm Map.empty) (\<lambda>sb.
     Ok \<lparr>Clientbound = cb, Serverbound = sb\<rparr>))))"
  unfolding unpackMapping_def navigate_def
  by (cases "unnest data [gs, ''toClient'', ''types'']";
      cases "unnest data [gs, ''toServer'', ''types'']")
     (simp_all add: bindR_def split: result.splits)

lemma collectNames_Ok:
  "collectNames toCamel kvs out = Ok out' \<Longrightarrow>
     dom out' = dom out \<union> entryName toCamel ` set kvs
     \<and> ran out' \<subseteq> ran out \<union> fst ` set kvs"
proof (induction kvs arbitrary: out)
  case Nil
  then show ?case by simp
next
  case (Cons kv rest)
  obtain k v where kv: "kv = (k, v)" by (cases kv)
  with Cons.prems obtain s where s: "v = JStr s" by (cases v) simp_all
  have "collectNames toCamel rest (out(toCamel s \<mapsto> k)) = Ok out'"
    using Cons.prems kv s by simp
  then have ih: "dom out' = dom (out(toCamel s \<mapsto> k)) \<union> entryName toCamel ` set rest"
      "ran out' \<subseteq> ran (out(toCamel s \<mapsto> k)) \<union> fst ` set rest"
    using Cons.IH by blast+
  have "ran (out(toCamel s \<mapsto> k)) \<subseteq> insert k (ran out)"
    by (auto simp: ran_def)
  then show ?case using ih s kv by (auto simp: entryName_def)
qed

theorem unpackMapping_panics_counterexample:
  "map_of [(''types'', JObj [])] ''types'' = Some (JObj [])
   \<and> map_of [] ''packet'' = (None :: json option)
   \<and> unpackMapping ToCamel noPacketDoc ''login'' = Panic InterfaceConversion"
  by (simp add: noPacketDoc_def unpackMapping_def leafMappings_def getKey_def asList_def bindR_def)

section \<open>Properties of the generated file\<close>

lemma main_generates:
  assumes "downloadInfo toCamel fetched oLogin oPlay oStatus = Ok p" and "ordersVisit om p"
  shows "main toCamel q fetched oLogin oPlay oStatus om ow None =
     Exited 0 [] (Some (generatedFile (MaxLen om p) ow p))"
  using main_writes [OF assms] by (simp add: generatedFile_def)

lemma writeFile_generates:
  "ordersVisit om p \<Longrightarrow> writeFile (MaxLen om p) ow p = (generatedFile (MaxLen om p) ow p, None)"
  by (simp add: writeFile_ok generatedFile_def)

lemma declarations_of_generatedFile:
  "filter isDecl (generatedFile maxLen ow p) = map (decl maxLen) (writtenEntries ow p)"
  by (simp only: generatedFile_def writtenEntries_def filter_isDecl_file)

lemma writtenEntries_names_subset: "fst ` set (writtenEntries ow p) \<subseteq> allNames p"
  by (auto simp: writtenEntries_def allNames_def set_rangeOver)

lemma length_writtenEntries:
  assumes "ordersVisit ow p"
  shows "length (writtenEntries ow p) =
     card (dom (Clientbound (Login p))) + card (dom (Serverbound (Login p))) +
     card (dom (Clientbound (Play p))) + card (dom (Serverbound (Play p))) +
     card (dom (Clientbound (Status p))) + card (dom (Serverbound (Status p)))"
  using assms by (simp add: writtenEntries_def ordersVisit_def visits_length)

lemma visits_graph: "visits ord m \<Longrightarrow> set (rangeOver ord m) = Map.graph m"
  by (auto simp: visits_entries Map.graph_def)

lemma empty_group:
  "\<not> isDecl (comment @ nl) \<Longrightarrow> m = Map.empty \<Longrightarrow>
     group comment maxLen (rangeOver ord m) = [comment @ nl]
     \<and> filter isDecl (group comment maxLen (rangeOver ord m)) = []"
  by (simp add: group_def)

text \<open>
  C8. In a successful run, the part of the file that belongs to a phase and direction
  whose resolved mapping is empty is the comment line of that group alone: the comment is
  written, and no declaration line follows it.
\<close>

theorem empty_group_keeps_comment:
  assumes "downloadInfo toCamel fetched oLogin oPlay oStatus = Ok p" and "ordersVisit om p"
  shows "main toCamel q fetched oLogin oPlay oStatus om ow None =
       Exited 0 [] (Some (header @ constBlock (MaxLen om p)
        (rangeOver (loginC ow) (Clientbound (Login p))) (rangeOver (loginS ow) (Serverbound (Login p)))
        (rangeOver (playC ow) (Clientbound (Play p))) (rangeOver (playS ow) (Serverbound (Play p)))
        (rangeOver (statusC ow) (Clientbound (Status p))) (rangeOver (statusS ow) (Serverbound (Status p)))))
     \<and> (Clientbound (Login p) = Map.empty \<longrightarrow>
          group ''  // Clientbound packets for connections in the login state.'' (MaxLen om p)
            (rangeOver (loginC ow) (Clientbound (Login p)))
          = [''  // Clientbound packets for connections in the login state.'' @ nl]
          \<and> filter isDecl (group ''  // Clientbound packets for connections in the login state.''
               (MaxLen om p) (rangeOver (loginC ow) (Clientbound (Login p)))) = [])
     \<and> (Serverbound (Login p) = Map.empty \<longrightarrow>
          group ''  // Serverbound packets for connections in the login state.'' (MaxLen om p)
            (rangeOver (loginS ow) (Serverbound (Login p)))
          = [''  // Serverbound packets for connections in the login state.'' @ nl]
          \<and> filter isDecl (group ''  // Serverbound packets for connections in the login state.''
               (MaxLen om p) (rangeOver (loginS ow) (Serverbound (Login p)))) = [])
     \<and> (Clientbound (Play p) = Map.empty \<longrightarrow>
          group ''  // Clientbound packets for connections in the play state.'' (MaxLen om p)
            (rangeOver (playC ow) (Clientbound (Play p)))
          = [''  // Clientbound packets for connections in the play state.'' @ nl]
          \<and> filter isDecl (group ''  // Clientbound packets for connections in the play state.''
               (MaxLen om p) (rangeOver (playC ow) (Clientbound (Play p)))) = [])
     \<and> (Serverbound (Play p) = Map.empty \<longrightarrow>
          group ''  // Serverbound packets for connections in the play state.'' (MaxLen om p)
            (rangeOver (playS ow) (Serverbound (Play p)))
          = [''  // Serverbound packets for connections in the play state.'' @ nl]
          \<and> filter isDecl (group ''  // Serverbound packets for connections in the play state.''
               (MaxLen om p) (rangeOver (playS ow) (Serverbound (Play p)))) = [])
     \<and> (Clientbound (Status p) = Map.empty \<longrightarrow>
          group ''  // Clientbound packets used to respond to ping/status requests.'' (MaxLen om p)
            (rangeOver (statusC ow) (Clientbound (Status p)))
          = [''  // Clientbound packets used to respond to ping/status requests.'' @ nl]
          \<and> filter isDecl (group ''  // Clientbound packets used to respond to ping/status requests.''
               (MaxLen om p) (rangeOver (statusC ow) (Clientbound (Status p)))) = [])
     \<and> (Serverbound (Status p) = Map.empty \<longrightarrow>
          group ''  // Serverbound packets used to ping or read server status.'' (MaxLen om p)
            (rangeOver (statusS ow) (Serverbound (Status p)))
          = [''  // Serverbound packets used to ping or read server status.'' @ nl]
          \<and> filter isDecl (group ''  // Serverbound packets used to ping or read server status.''
               (MaxLen om p) (rangeOver (statusS ow) (Serverbound (Status p)))) = [])"
proof (intro conjI impI)
  show "main toCamel q fetched oLogin oPlay oStatus om ow None =
       Exited 0 [] (Some (header @ constBlock (MaxLen om p)
        (rangeOver (loginC ow) (Clientbound (Login p))) (rangeOver (loginS ow) (Serverbound (Login p)))
        (rangeOver (playC ow) (Clientbound (Play p))) (rangeOver (playS ow) (Serverbound (Play p)))
        (rangeOver (statusC ow) (Clientbound (Status p))) (rangeOver (statusS ow) (Serverbound (Status p)))))"
    by (rule main_writes [OF assms])
qed (simp_all only: empty_group [OF not_isDecl_fixed(4)] empty_group [OF not_isDecl_fixed(5)]
      empty_group [OF not_isDecl_fixed(6)] empty_group [OF not_isDecl_fixed(7)]
      empty_group [OF not_isDecl_fixed(8)] empty_group [OF not_isDecl_fixed(9)]
      filter.simps not_isDecl_fixed if_False)

section \<open>The example schema\<close>

lemma leafMappings_packetEntry: "leafMappings [(''packet'', packetEntry m)] = Ok m"
  by (simp add: leafMappings_def packetEntry_def getKey_def asList_def asMap_def indexAt_def
      bindR_def)

lemma ToCamel_examples:
  "ToCamel ''disconnect'' = ''Disconnect''"
  "ToCamel ''login_start'' = ''LoginStart''"
  "ToCamel ''spawn_entity'' = ''SpawnEntity''"
  "ToCamel ''chat'' = ''Chat''"
  "ToCamel ''ping_start'' = ''PingStart''"
  "ToCamel ''chat_message'' = ''ChatMessage''"
  "ToCamel ''chat-message'' = ''ChatMessage''"
  by (simp_all add: ToCamel_def isSeparator_def upper_def)

lemma exampleDoc_login:
  "unpackMapping ToCamel exampleDoc ''login'' =
     Ok \<lparr>Clientbound = [''Disconnect'' \<mapsto> ''0x00''], Serverbound = [''LoginStart'' \<mapsto> ''0x00'']\<rparr>"
  by (simp add: unpackMapping_def exampleDoc_def phaseSchema_def leafMappings_packetEntry
      bindR_def ToCamel_examples)

lemma exampleDoc_play:
  "unpackMapping ToCamel exampleDoc ''play'' =
     Ok \<lparr>Clientbound = [''SpawnEntity'' \<mapsto> ''0x00'', ''Chat'' \<mapsto> ''0x0e''],
         Serverbound = [''Chat'' \<mapsto> ''0x03'']\<rparr>"
  by (simp add: unpackMapping_def exampleDoc_def phaseSchema_def leafMappings_packetEntry
      bindR_def ToCamel_examples)

lemma exampleDoc_status:
  "unpackMapping ToCamel exampleDoc ''status'' =
     Ok \<lparr>Clientbound = Map.empty, Serverbound = [''PingStart'' \<mapsto> ''0x00'']\<rparr>"
  by (simp add: unpackMapping_def exampleDoc_def phaseSchema_def leafMappings_packetEntry
      bindR_def ToCamel_examples)

lemma example_resolve_login:
  "EnsureUniqueNames [''Disconnect'']
     \<lparr>Clientbound = [''Disconnect'' \<mapsto> ''0x00''], Serverbound = [''LoginStart'' \<mapsto> ''0x00'']\<rparr>
   = \<lparr>Clientbound = [''Disconnect'' \<mapsto> ''0x00''], Serverbound = [''LoginStart'' \<mapsto> ''0x00'']\<rparr>"
  by (simp add: EnsureUniqueNames_def rangeOver_def resolveName_def)

lemma example_resolve_play:
  "EnsureUniqueNames [''Chat'', ''SpawnEntity'']
     \<lparr>Clientbound = [''SpawnEntity'' \<mapsto> ''0x00'', ''Chat'' \<mapsto> ''0x0e''],
      Serverbound = [''Chat'' \<mapsto> ''0x03'']\<rparr>
   = \<lparr>Clientbound = [''SpawnEntity'' \<mapsto> ''0x00'', ''ChatClientbound'' \<mapsto> ''0x0e''],
      Serverbound = [''ChatServerbound'' \<mapsto> ''0x03'']\<rparr>"
  by (simp add: EnsureUniqueNames_def rangeOver_def resolveName_def getStr_def Let_def)

lemma example_resolve_status:
  "EnsureUniqueNames []
     \<lparr>Clientbound = Map.empty, Serverbound = [''PingStart'' \<mapsto> ''0x00'']\<rparr>
   = \<lparr>Clientbound = Map.empty, Serverbound = [''PingStart'' \<mapsto> ''0x00'']\<rparr>"
  by (simp add: EnsureUniqueNames_def rangeOver_def resolveName_def)

lemma exampleDoc_download:
  "downloadInfo ToCamel (Inr exampleDoc) [''Disconnect''] [''Chat'', ''SpawnEntity''] [] = Ok exampleIDs"
  by (simp add: downloadInfo_def exampleDoc_login exampleDoc_play exampleDoc_status
      example_resolve_login example_resolve_play example_resolve_status exampleIDs_def)

lemma exampleOrders_visit: "ordersVisit exampleOrders exampleIDs"
  by (simp add: ordersVisit_def visits_def exampleOrders_def exampleIDs_def)

lemma example_MaxLen: "MaxLen exampleOrders exampleIDs = 15"
  by (simp add: MaxLen_def exampleOrders_def exampleIDs_def rangeOver_def longer_def)

lemma example_entries:
  "rangeOver (loginC exampleOrders) (Clientbound (Login exampleIDs)) = [(''Disconnect'', ''0x00'')]"
  "rangeOver (loginS exampleOrders) (Serverbound (Login exampleIDs)) = [(''LoginStart'', ''0x00'')]"
  "rangeOver (playC exampleOrders) (Clientbound (Play exampleIDs))
     = [(''SpawnEntity'', ''0x00''), (''ChatClientbound'', ''0x0e'')]"
  "rangeOver (playS exampleOrders) (Serverbound (Play exampleIDs)) = [(''ChatServerbound'', ''0x03'')]"
  "rangeOver (statusC exampleOrders) (Clientbound (Status exampleIDs)) = []"
  "rangeOver (statusS exampleOrders) (Serverbound (Status exampleIDs)) = [(''PingStart'', ''0x00'')]"
  by (simp_all add: exampleOrders_def exampleIDs_def rangeOver_def)

section \<open>From the schema to the resolved mappings\<close>

lemma downloadInfo_Ok:
  assumes "downloadInfo toCamel (Inr data) oLogin oPlay oStatus = Ok p"
  shows "\<exists>mL mP mS.
     unpackMapping toCamel data ''login'' = Ok mL \<and> Login p = EnsureUniqueNames oLogin mL \<and>
     unpackMapping toCamel data ''play'' = Ok mP \<and> Play p = EnsureUniqueNames oPlay mP \<and>
     unpackMapping toCamel data ''status'' = Ok mS \<and> Status p = EnsureUniqueNames oStatus mS"
  using assms by (auto simp: downloadInfo_def split: result.splits)

lemma unpackMapping_Ok:
  assumes "unpackMapping toCamel data gs = Ok m"
  shows "\<exists>cm sm.
     navigate data gs ''toClient'' = Ok cm \<and> navigate data gs ''toServer'' = Ok sm \<and>
     dom (Clientbound m) = entryName toCamel ` set cm \<and> ran (Clientbound m) \<subseteq> fst ` set cm \<and>
     dom (Serverbound m) = entryName toCamel ` set sm \<and> ran (Serverbound m) \<subseteq> fst ` set sm"
proof -
  from assms obtain cm cb sm sb where
    n: "navigate data gs ''toClient'' = Ok cm" "collectNames toCamel cm Map.empty = Ok cb"
       "navigate data gs ''toServer'' = Ok sm" "collectNames toCamel sm Map.empty = Ok sb"
    and m: "m = \<lparr>Clientbound = cb, Serverbound = sb\<rparr>"
    unfolding unpackMapping_navigate bindR_Ok_iff by auto
  show ?thesis
    using n m collectNames_Ok [OF n(2)] collectNames_Ok [OF n(4)] by simp
qed

lemma resolveName_ran:
  assumes "k \<in> dom (Clientbound m)"
  shows "ran (Clientbound (resolveName k m)) \<subseteq> ran (Clientbound m)"
    and "ran (Serverbound (resolveName k m)) \<subseteq> ran (Serverbound m)"
    and "dom (Clientbound m) - {k} \<subseteq> dom (Clientbound (resolveName k m))"
proof -
  obtain cv where cv: "Clientbound m k = Some cv" using assms by auto
  show "ran (Clientbound (resolveName k m)) \<subseteq> ran (Clientbound m)"
    using cv by (auto simp: resolveName_def getStr_def Let_def ran_def split: if_splits)
  show "ran (Serverbound (resolveName k m)) \<subseteq> ran (Serverbound m)"
    by (auto simp: resolveName_def getStr_def Let_def ran_def split: if_splits)
  show "dom (Clientbound m) - {k} \<subseteq> dom (Clientbound (resolveName k m))"
    by (auto simp: resolveName_def getStr_def Let_def)
qed

lemma resolve_fold_ran:
  "distinct ks \<Longrightarrow> set ks \<subseteq> dom (Clientbound m) \<Longrightarrow>
     ran (Clientbound (foldl (\<lambda>m' k. resolveName k m') m ks)) \<subseteq> ran (Clientbound m)
     \<and> ran (Serverbound (foldl (\<lambda>m' k. resolveName k m') m ks)) \<subseteq> ran (Serverbound m)"
proof (induction ks arbitrary: m)
  case Nil
  then show ?case by simp
next
  case (Cons k ks)
  have k: "k \<in> dom (Clientbound m)" using Cons.prems by simp
  have "set ks \<subseteq> dom (Clientbound m) - {k}" using Cons.prems by auto
  then have sub: "set ks \<subseteq> dom (Clientbound (resolveName k m))"
    using resolveName_ran(3) [OF k] by blast
  have "distinct ks" using Cons.prems by simp
  from Cons.IH [OF this sub] resolveName_ran(1,2) [OF k]
  show ?case by auto
qed

lemma EnsureUniqueNames_ran:
  assumes "visits ord (Clientbound m)"
  shows "ran (Clientbound (EnsureUniqueNames ord m)) \<subseteq> ran (Clientbound m)"
    and "ran (Serverbound (EnsureUniqueNames ord m)) \<subseteq> ran (Serverbound m)"
proof -
  have d: "distinct (map fst (rangeOver ord (Clientbound m)))"
    using assms by (simp add: distinct_rangeOver_keys visits_def)
  have s: "set (map fst (rangeOver ord (Clientbound m))) \<subseteq> dom (Clientbound m)"
    using visits_keys [OF assms] by simp
  from resolve_fold_ran [OF d s]
  show "ran (Clientbound (EnsureUniqueNames ord m)) \<subseteq> ran (Clientbound m)"
    and "ran (Serverbound (EnsureUniqueNames ord m)) \<subseteq> ran (Serverbound m)"
    by (simp_all add: EnsureUniqueNames_def collect_keys)
qed

lemma resolved_ids_from_schema:
  assumes "unpackMapping toCamel data gs = Ok m" and "visits ord (Clientbound m)"
  shows "\<exists>cm sm.
     navigate data gs ''toClient'' = Ok cm \<and> navigate data gs ''toServer'' = Ok sm \<and>
     ran (Clientbound (EnsureUniqueNames ord m)) \<subseteq> fst ` set cm \<and>
     ran (Serverbound (EnsureUniqueNames ord m)) \<subseteq> fst ` set sm"
proof -
  from unpackMapping_Ok [OF assms(1)] obtain cm sm where
    n: "navigate data gs ''toClient'' = Ok cm" "navigate data gs ''toServer'' = Ok sm"
    and r: "ran (Clientbound m) \<subseteq> fst ` set cm" "ran (Serverbound m) \<subseteq> fst ` set sm"
    by (elim exE conjE)
  have c: "ran (Clientbound (EnsureUniqueNames ord m)) \<subseteq> fst ` set cm"
    using EnsureUniqueNames_ran(1) [OF assms(2)] r(1) by (rule subset_trans)
  have s: "ran (Serverbound (EnsureUniqueNames ord m)) \<subseteq> fst ` set sm"
    using EnsureUniqueNames_ran(2) [OF assms(2)] r(2) by (rule subset_trans)
  show ?thesis
    using n c s by (intro exI conjI)
qed

lemma rangeOver_values: "snd ` set (rangeOver ord m) \<subseteq> ran m"
  by (auto simp: set_rangeOver ran_def)

lemma collision_fewer_entries:
  assumes "collectNames toCamel cm Map.empty = Ok cb" and "distinct (map fst cm)"
    and "(i, JStr a) \<in> set cm" and "(j, JStr b) \<in> set cm" and "a \<noteq> b"
    and "toCamel a = toCamel b"
  shows "card (dom cb) < length cm"
proof -
  have dom: "dom cb = entryName toCamel ` set cm"
    using collectNames_Ok [OF assms(1)] by simp
  have "distinct cm" using assms(2) by (simp add: distinct_map)
  then have len: "card (set cm) = length cm" by (rule distinct_card)
  have "\<not> inj_on (entryName toCamel) (set cm)"
  proof
    assume "inj_on (entryName toCamel) (set cm)"
    moreover have "entryName toCamel (i, JStr a) = entryName toCamel (j, JStr b)"
      using assms(6) by (simp add: entryName_def)
    ultimately have "(i, JStr a) = (j, JStr b)"
      using assms(3,4) by (rule inj_onD)
    then show False using assms(5) by simp
  qed
  then have "card (entryName toCamel ` set cm) \<noteq> card (set cm)"
    using eq_card_imp_inj_on [of "set cm" "entryName toCamel"] by auto
  moreover have "card (entryName toCamel ` set cm) \<le> card (set cm)"
    by (simp add: card_image_le)
  ultimately show ?thesis using dom len by simp
qed

text \<open>
  C10. Let two raw packet names \<open>a\<close> and \<open>b\<close> be different and have the same normalised
  name. Whenever both are in the table of one direction of a phase, the directional mapping
  that \<open>unpackMapping\<close> returns has fewer entries than the table. In particular, for the
  table with the two entries \<open>i: a\<close> and \<open>j: b\<close> the mapping has the single entry of that
  name, with the id \<open>j\<close> when the entries are met in this order and with the id \<open>i\<close> when
  they are met in the other order: the other id is dropped without an error.
\<close>

theorem colliding_names_lose_an_entry:
  assumes "a \<noteq> b" and "toCamel a = toCamel b" and "i \<noteq> j"
  shows "unpackMapping toCamel [(gs, phaseSchema [(i, JStr a), (j, JStr b)] [])] gs
           = Ok \<lparr>Clientbound = [toCamel a \<mapsto> j], Serverbound = Map.empty\<rparr>
     \<and> unpackMapping toCamel [(gs, phaseSchema [(j, JStr b), (i, JStr a)] [])] gs
           = Ok \<lparr>Clientbound = [toCamel a \<mapsto> i], Serverbound = Map.empty\<rparr>
     \<and> (\<forall>data cm sm m.
           unpackMapping toCamel data gs = Ok m
           \<and> navigate data gs ''toClient'' = Ok cm \<and> navigate data gs ''toServer'' = Ok sm \<longrightarrow>
           (distinct (map fst cm) \<and> (i, JStr a) \<in> set cm \<and> (j, JStr b) \<in> set cm
              \<longrightarrow> card (dom (Clientbound m)) < length cm)
           \<and> (distinct (map fst sm) \<and> (i, JStr a) \<in> set sm \<and> (j, JStr b) \<in> set sm
              \<longrightarrow> card (dom (Serverbound m)) < length sm))"
proof -
  have u1: "unpackMapping toCamel [(gs, phaseSchema [(i, JStr a), (j, JStr b)] [])] gs
           = Ok \<lparr>Clientbound = [toCamel a \<mapsto> j], Serverbound = Map.empty\<rparr>"
    using assms(2)
    by (simp add: unpackMapping_def phaseSchema_def leafMappings_packetEntry bindR_def)
  have u2: "unpackMapping toCamel [(gs, phaseSchema [(j, JStr b), (i, JStr a)] [])] gs
           = Ok \<lparr>Clientbound = [toCamel a \<mapsto> i], Serverbound = Map.empty\<rparr>"
    using assms(2)
    by (simp add: unpackMapping_def phaseSchema_def leafMappings_packetEntry bindR_def)
  have g: "\<forall>data cm sm m.
           unpackMapping toCamel data gs = Ok m
           \<and> navigate data gs ''toClient'' = Ok cm \<and> navigate data gs ''toServer'' = Ok sm \<longrightarrow>
           (distinct (map fst cm) \<and> (i, JStr a) \<in> set cm \<and> (j, JStr b) \<in> set cm
              \<longrightarrow> card (dom (Clientbound m)) < length cm)
           \<and> (distinct (map fst sm) \<and> (i, JStr a) \<in> set sm \<and> (j, JStr b) \<in> set sm
              \<longrightarrow> card (dom (Serverbound m)) < length sm)"
  proof (intro allI impI)
    fix data cm sm m
    assume h: "unpackMapping toCamel data gs = Ok m
           \<and> navigate data gs ''toClient'' = Ok cm \<and> navigate data gs ''toServer'' = Ok sm"
    then obtain cb sb where
      c: "collectNames toCamel cm Map.empty = Ok cb" "collectNames toCamel sm Map.empty = Ok sb"
      and m: "m = \<lparr>Clientbound = cb, Serverbound = sb\<rparr>"
      unfolding unpackMapping_navigate bindR_Ok_iff by auto
    have "card (dom cb) < length cm"
      if "distinct (map fst cm) \<and> (i, JStr a) \<in> set cm \<and> (j, JStr b) \<in> set cm"
      using that collision_fewer_entries [OF c(1) _ _ _ assms(1,2), of i j] by simp
    moreover have "card (dom sb) < length sm"
      if "distinct (map fst sm) \<and> (i, JStr a) \<in> set sm \<and> (j, JStr b) \<in> set sm"
      using that collision_fewer_entries [OF c(2) _ _ _ assms(1,2), of i j] by simp
    ultimately show "(distinct (map fst cm) \<and> (i, JStr a) \<in> set cm \<and> (j, JStr b) \<in> set cm
              \<longrightarrow> card (dom (Clientbound m)) < length cm)
           \<and> (distinct (map fst sm) \<and> (i, JStr a) \<in> set sm \<and> (j, JStr b) \<in> set sm
              \<longrightarrow> card (dom (Serverbound m)) < length sm)"
      by (simp add: m)
  qed
  show ?thesis by (rule conjI [OF u1 conjI [OF u2 g]])
qed

theorem colliding_names_lose_an_entry_witness:
  "''chat_message'' \<noteq> ''chat-message''
   \<and> ToCamel ''chat_message'' = ToCamel ''chat-message''
   \<and> unpackMapping ToCamel
        [(''play'', phaseSchema [(''0x0e'', JStr ''chat_message''), (''0x0f'', JStr ''chat-message'')] [])]
        ''play''
      = Ok \<lparr>Clientbound = [''ChatMessage'' \<mapsto> ''0x0f''], Serverbound = Map.empty\<rparr>
   \<and> unpackMapping ToCamel
        [(''play'', phaseSchema [(''0x0f'', JStr ''chat-message''), (''0x0e'', JStr ''chat_message'')] [])]
        ''play''
      = Ok \<lparr>Clientbound = [''ChatMessage'' \<mapsto> ''0x0e''], Serverbound = Map.empty\<rparr>
   \<and> card (dom [''ChatMessage'' \<mapsto> ''0x0f'']) < length [(''0x0e'', JStr ''chat_message''), (''0x0f'', JStr ''chat-message'')]"
proof -
  have t: "ToCamel ''chat_message'' = ToCamel ''chat-message''"
    by (simp add: ToCamel_examples)
  have n: "''chat_message'' \<noteq> ''chat-message''" "''0x0e'' \<noteq> ''0x0f''"
    by simp_all
  show ?thesis
    using colliding_names_lose_an_entry [OF n(1) t n(2), of "''play''"] n(1)
    by (simp add: ToCamel_examples)
qed

section \<open>Witnesses on the example schema\<close>

theorem empty_group_keeps_comment_witness:
  "downloadInfo ToCamel (Inr exampleDoc) [''Disconnect''] [''Chat'', ''SpawnEntity''] [] = Ok exampleIDs
   \<and> ordersVisit exampleOrders exampleIDs
   \<and> Clientbound (Status exampleIDs) = Map.empty
   \<and> group ''  // Clientbound packets used to respond to ping/status requests.'' 15
        (rangeOver (statusC exampleOrders) (Clientbound (Status exampleIDs)))
      = [''  // Clientbound packets used to respond to ping/status requests.'' @ nl]
   \<and> main ToCamel quotePrintable (Inr exampleDoc) [''Disconnect''] [''Chat'', ''SpawnEntity''] []
        exampleOrders exampleOrders None
      = Exited 0 []
          (Some (header @ constBlock 15
             [(''Disconnect'', ''0x00'')] [(''LoginStart'', ''0x00'')]
             [(''SpawnEntity'', ''0x00''), (''ChatClientbound'', ''0x0e'')] [(''ChatServerbound'', ''0x03'')]
             [] [(''PingStart'', ''0x00'')]))"
proof -
  have e: "Clientbound (Status exampleIDs) = Map.empty"
    by (simp add: exampleIDs_def)
  note t = empty_group_keeps_comment [OF exampleDoc_download exampleOrders_visit,
        of quotePrintable exampleOrders, unfolded example_MaxLen]
  note g = t [THEN conjunct2, THEN conjunct2, THEN conjunct2, THEN conjunct2, THEN conjunct2,
        THEN conjunct1, THEN mp, OF e, THEN conjunct1]
  show ?thesis
    by (intro conjI)
      (rule exampleDoc_download, rule exampleOrders_visit, rule e, rule g,
        rule t [THEN conjunct1, unfolded example_entries])
qed

section \<open>A failure in the status phase\<close>

lemma statusBrokenDoc_login:
  "unpackMapping ToCamel statusBrokenDoc ''login'' =
     Ok \<lparr>Clientbound = [''Disconnect'' \<mapsto> ''0x00''], Serverbound = [''LoginStart'' \<mapsto> ''0x00'']\<rparr>"
  by (simp add: unpackMapping_def statusBrokenDoc_def phaseSchema_def leafMappings_packetEntry
      bindR_def ToCamel_examples)

lemma statusBrokenDoc_play:
  "unpackMapping ToCamel statusBrokenDoc ''play'' =
     Ok \<lparr>Clientbound = [''Chat'' \<mapsto> ''0x0e''], Serverbound = [''Chat'' \<mapsto> ''0x03'']\<rparr>"
  by (simp add: unpackMapping_def statusBrokenDoc_def phaseSchema_def leafMappings_packetEntry
      bindR_def ToCamel_examples)

lemma statusBrokenDoc_status:
  "unpackMapping ToCamel statusBrokenDoc ''status'' = Err (KeyNotFound ''toClient'')"
  by (simp add: unpackMapping_def statusBrokenDoc_def phaseSchema_def bindR_def)

text \<open>
  C2. On a schema whose status phase lacks the key \<^verbatim>\<open>toClient\<close>, while the login and play
  phases are well-formed, the run exits with status 1 before any file is created, and the
  message on the standard error stream begins with the phase name "play": the status phase,
  whose navigation failed, is not named.
\<close>

theorem status_failure_is_reported_as_play:
  "unpackMapping ToCamel statusBrokenDoc ''status'' = Err (KeyNotFound ''toClient'')
   \<and> downloadInfo ToCamel (Inr statusBrokenDoc) oLogin oPlay oStatus
       = Err (Prefixed ''play'' (KeyNotFound ''toClient''))
   \<and> main ToCamel quotePrintable (Inr statusBrokenDoc) oLogin oPlay oStatus om ow created
       = Exited 1 (''Error: play: key '' @ [CHR 0x22] @ ''toClient'' @ [CHR 0x22] @ '' not found'' @ nl)
           None"
proof -
  have d: "downloadInfo ToCamel (Inr statusBrokenDoc) oLogin oPlay oStatus
       = Err (Prefixed ''play'' (KeyNotFound ''toClient''))"
    by (simp add: downloadInfo_def statusBrokenDoc_login statusBrokenDoc_play statusBrokenDoc_status)
  have m: "main ToCamel quotePrintable (Inr statusBrokenDoc) oLogin oPlay oStatus om ow created
       = Exited 1 (''Error: play: key '' @ [CHR 0x22] @ ''toClient'' @ [CHR 0x22] @ '' not found'' @ nl)
           None"
    by (simp add: main_def d quotePrintable_def)
  show ?thesis using statusBrokenDoc_status d m by simp
qed

section \<open>Names within a phase and across phases\<close>

lemma rangeOver_keys_subset: "set (map fst (rangeOver ord m)) \<subseteq> dom m"
  by (auto simp: map_fst_rangeOver)

lemma phase_names_distinct:
  assumes "visits ord (Clientbound m)" and "noSuffixClash m"
    and "distinct oc" and "distinct os"
  shows "distinct (map fst (rangeOver oc (Clientbound (EnsureUniqueNames ord m))
                            @ rangeOver os (Serverbound (EnsureUniqueNames ord m))))"
proof -
  let ?m' = "EnsureUniqueNames ord m"
  have "set (map fst (rangeOver oc (Clientbound ?m'))) \<inter> set (map fst (rangeOver os (Serverbound ?m')))
        \<subseteq> dom (Clientbound ?m') \<inter> dom (Serverbound ?m')"
    using rangeOver_keys_subset [of oc "Clientbound ?m'"] rangeOver_keys_subset [of os "Serverbound ?m'"]
    by blast
  then have "set (map fst (rangeOver oc (Clientbound ?m'))) \<inter> set (map fst (rangeOver os (Serverbound ?m'))) = {}"
    using EnsureUniqueNames_disjoint [OF assms(1,2)] by simp
  then show ?thesis
    using assms(3,4) distinct_rangeOver_keys [of oc "Clientbound ?m'"]
      distinct_rangeOver_keys [of os "Serverbound ?m'"]
    by (simp only: map_append distinct_append simp_thms)
qed

text \<open>
  C4 (as amended). In a run that produces the file, no name is declared twice within one
  group; and no name is declared in both groups of one phase, provided that among the
  normalised names of that phase no name shared by the two directions, followed by
  "Clientbound", is a serverbound name, and none followed by "Serverbound" is a
  clientbound name. Nothing is said of names of different phases.
\<close>

theorem names_unique_within_phase:
  assumes "downloadInfo toCamel (Inr data) oLogin oPlay oStatus = Ok p"
    and "ordersVisit om p" and "ordersVisit ow p"
  shows "main toCamel q (Inr data) oLogin oPlay oStatus om ow None =
       Exited 0 [] (Some (generatedFile (MaxLen om p) ow p))
     \<and> filter isDecl (generatedFile (MaxLen om p) ow p)
         = map (decl (MaxLen om p)) (writtenEntries ow p)
     \<and> distinct (map fst (rangeOver (loginC ow) (Clientbound (Login p))))
     \<and> distinct (map fst (rangeOver (loginS ow) (Serverbound (Login p))))
     \<and> distinct (map fst (rangeOver (playC ow) (Clientbound (Play p))))
     \<and> distinct (map fst (rangeOver (playS ow) (Serverbound (Play p))))
     \<and> distinct (map fst (rangeOver (statusC ow) (Clientbound (Status p))))
     \<and> distinct (map fst (rangeOver (statusS ow) (Serverbound (Status p))))
     \<and> (\<forall>m. unpackMapping toCamel data ''login'' = Ok m \<and> visits oLogin (Clientbound m)
              \<and> noSuffixClash m \<longrightarrow>
            distinct (map fst (rangeOver (loginC ow) (Clientbound (Login p))
                               @ rangeOver (loginS ow) (Serverbound (Login p)))))
     \<and> (\<forall>m. unpackMapping toCamel data ''play'' = Ok m \<and> visits oPlay (Clientbound m)
              \<and> noSuffixClash m \<longrightarrow>
            distinct (map fst (rangeOver (playC ow) (Clientbound (Play p))
                               @ rangeOver (playS ow) (Serverbound (Play p)))))
     \<and> (\<forall>m. unpackMapping toCamel data ''status'' = Ok m \<and> visits oStatus (Clientbound m)
              \<and> noSuffixClash m \<longrightarrow>
            distinct (map fst (rangeOver (statusC ow) (Clientbound (Status p))
                               @ rangeOver (statusS ow) (Serverbound (Status p)))))"
proof -
  from downloadInfo_Ok [OF assms(1)] obtain mL mP mS where
    u: "unpackMapping toCamel data ''login'' = Ok mL" "unpackMapping toCamel data ''play'' = Ok mP"
       "unpackMapping toCamel data ''status'' = Ok mS"
    and p: "Login p = EnsureUniqueNames oLogin mL" "Play p = EnsureUniqueNames oPlay mP"
       "Status p = EnsureUniqueNames oStatus mS"
    by (elim exE conjE)
  have v: "distinct (loginC ow)" "distinct (loginS ow)" "distinct (playC ow)" "distinct (playS ow)"
    "distinct (statusC ow)" "distinct (statusS ow)"
    using assms(3) by (simp_all add: ordersVisit_def visits_def)
  have l: "distinct (map fst (rangeOver (loginC ow) (Clientbound (Login p))
                               @ rangeOver (loginS ow) (Serverbound (Login p))))"
    if "unpackMapping toCamel data ''login'' = Ok m \<and> visits oLogin (Clientbound m) \<and> noSuffixClash m"
    for m
  proof -
    have "m = mL" using that u(1) by simp
    then show ?thesis using that phase_names_distinct [OF _ _ v(1,2), of oLogin m] by (simp add: p)
  qed
  have y: "distinct (map fst (rangeOver (playC ow) (Clientbound (Play p))
                               @ rangeOver (playS ow) (Serverbound (Play p))))"
    if "unpackMapping toCamel data ''play'' = Ok m \<and> visits oPlay (Clientbound m) \<and> noSuffixClash m"
    for m
  proof -
    have "m = mP" using that u(2) by simp
    then show ?thesis using that phase_names_distinct [OF _ _ v(3,4), of oPlay m] by (simp add: p)
  qed
  have s: "distinct (map fst (rangeOver (statusC ow) (Clientbound (Status p))
                               @ rangeOver (statusS ow) (Serverbound (Status p))))"
    if "unpackMapping toCamel data ''status'' = Ok m \<and> visits oStatus (Clientbound m) \<and> noSuffixClash m"
    for m
  proof -
    have "m = mS" using that u(3) by simp
    then show ?thesis using that phase_names_distinct [OF _ _ v(5,6), of oStatus m] by (simp add: p)
  qed
  show ?thesis
    using main_generates [OF assms(1,2), of q ow] declarations_of_generatedFile [of "MaxLen om p" ow p]
      v [THEN distinct_rangeOver_keys] l y s
    by (intro conjI allI impI)
qed

lemma chatPlay_visits:
  "visits [''Chat'', ''SpawnEntity'']
     (Clientbound \<lparr>Clientbound = [''SpawnEntity'' \<mapsto> ''0x00'', ''Chat'' \<mapsto> ''0x0e''],
                   Serverbound = [''Chat'' \<mapsto> ''0x03'']\<rparr>)"
  by (simp add: visits_def)

lemma chatPlay_noSuffixClash:
  "noSuffixClash \<lparr>Clientbound = [''SpawnEntity'' \<mapsto> ''0x00'', ''Chat'' \<mapsto> ''0x0e''],
                   Serverbound = [''Chat'' \<mapsto> ''0x03'']\<rparr>"
  by (simp add: noSuffixClash_def)

theorem names_unique_within_phase_witness:
  "downloadInfo ToCamel (Inr exampleDoc) [''Disconnect''] [''Chat'', ''SpawnEntity''] [] = Ok exampleIDs
   \<and> ordersVisit exampleOrders exampleIDs
   \<and> unpackMapping ToCamel exampleDoc ''play'' =
       Ok \<lparr>Clientbound = [''SpawnEntity'' \<mapsto> ''0x00'', ''Chat'' \<mapsto> ''0x0e''],
           Serverbound = [''Chat'' \<mapsto> ''0x03'']\<rparr>
   \<and> noSuffixClash \<lparr>Clientbound = [''SpawnEntity'' \<mapsto> ''0x00'', ''Chat'' \<mapsto> ''0x0e''],
                     Serverbound = [''Chat'' \<mapsto> ''0x03'']\<rparr>
   \<and> main ToCamel quotePrintable (Inr exampleDoc) [''Disconnect''] [''Chat'', ''SpawnEntity''] []
        exampleOrders exampleOrders None
      = Exited 0 [] (Some (generatedFile 15 exampleOrders exampleIDs))
   \<and> distinct (map fst ([(''SpawnEntity'', ''0x00''), (''ChatClientbound'', ''0x0e'')]
                         @ [(''ChatServerbound'', ''0x03'')]))"
proof -
  note t = names_unique_within_phase [OF exampleDoc_download exampleOrders_visit exampleOrders_visit,
      of quotePrintable, unfolded example_MaxLen example_entries]
  note y = t [THEN conjunct2, THEN conjunct2, THEN conjunct2, THEN conjunct2, THEN conjunct2,
      THEN conjunct2, THEN conjunct2, THEN conjunct2, THEN conjunct2, THEN conjunct1, THEN spec,
      THEN mp, OF conjI [OF exampleDoc_play conjI [OF chatPlay_visits chatPlay_noSuffixClash]]]
  show ?thesis
    by (intro conjI)
      (rule exampleDoc_download, rule exampleOrders_visit, rule exampleDoc_play,
        rule chatPlay_noSuffixClash, rule t [THEN conjunct1], rule y)
qed

section \<open>The same name in two phases\<close>

lemma crossPhaseDoc_download:
  "downloadInfo ToCamel (Inr crossPhaseDoc) [''Disconnect''] [''Disconnect''] [] =
     Ok \<lparr>Login = \<lparr>Clientbound = [''Disconnect'' \<mapsto> ''0x00''], Serverbound = Map.empty\<rparr>,
         Play = \<lparr>Clientbound = [''Disconnect'' \<mapsto> ''0x19''], Serverbound = Map.empty\<rparr>,
         Status = \<lparr>Clientbound = Map.empty, Serverbound = Map.empty\<rparr>\<rparr>"
  by (simp add: downloadInfo_def unpackMapping_def crossPhaseDoc_def phaseSchema_def
      leafMappings_packetEntry bindR_def ToCamel_examples EnsureUniqueNames_def rangeOver_def
      resolveName_def)

theorem same_name_in_two_phases_counterexample:
  "main ToCamel quotePrintable (Inr crossPhaseDoc) [''Disconnect''] [''Disconnect''] []
     crossPhaseOrders crossPhaseOrders None
   = Exited 0 []
       (Some (header @ constBlock 10 [(''Disconnect'', ''0x00'')] [] [(''Disconnect'', ''0x19'')] []
                [] []))
   \<and> filter isDecl
        (header @ constBlock 10 [(''Disconnect'', ''0x00'')] [] [(''Disconnect'', ''0x19'')] [] [] [])
      = [''  Disconnect PktID = 0x00'' @ nl, ''  Disconnect PktID = 0x19'' @ nl]"
proof -
  let ?p = "\<lparr>Login = \<lparr>Clientbound = [''Disconnect'' \<mapsto> ''0x00''], Serverbound = Map.empty\<rparr>,
         Play = \<lparr>Clientbound = [''Disconnect'' \<mapsto> ''0x19''], Serverbound = Map.empty\<rparr>,
         Status = \<lparr>Clientbound = Map.empty, Serverbound = Map.empty\<rparr>\<rparr>"
  have v: "ordersVisit crossPhaseOrders ?p"
    by (simp add: ordersVisit_def visits_def crossPhaseOrders_def)
  have mx: "MaxLen crossPhaseOrders ?p = 10"
    by (simp add: MaxLen_def crossPhaseOrders_def rangeOver_def longer_def)
  have e: "rangeOver (loginC crossPhaseOrders) (Clientbound (Login ?p)) = [(''Disconnect'', ''0x00'')]"
    "rangeOver (loginS crossPhaseOrders) (Serverbound (Login ?p)) = []"
    "rangeOver (playC crossPhaseOrders) (Clientbound (Play ?p)) = [(''Disconnect'', ''0x19'')]"
    "rangeOver (playS crossPhaseOrders) (Serverbound (Play ?p)) = []"
    "rangeOver (statusC crossPhaseOrders) (Clientbound (Status ?p)) = []"
    "rangeOver (statusS crossPhaseOrders) (Serverbound (Status ?p)) = []"
    by (simp_all add: crossPhaseOrders_def rangeOver_def)
  have m: "main ToCamel quotePrintable (Inr crossPhaseDoc) [''Disconnect''] [''Disconnect''] []
     crossPhaseOrders crossPhaseOrders None
   = Exited 0 []
       (Some (header @ constBlock 10 [(''Disconnect'', ''0x00'')] [] [(''Disconnect'', ''0x19'')] []
                [] []))"
    using main_writes [OF crossPhaseDoc_download v, of quotePrintable crossPhaseOrders]
    by (simp only: mx e)
  have f: "filter isDecl
        (header @ constBlock 10 [(''Disconnect'', ''0x00'')] [] [(''Disconnect'', ''0x19'')] [] [] [])
      = [''  Disconnect PktID = 0x00'' @ nl, ''  Disconnect PktID = 0x19'' @ nl]"
    by (simp only: filter_isDecl_file) (simp add: decl_def padded_def)
  show ?thesis by (rule conjI [OF m f])
qed

section \<open>The layout of the generated file\<close>

lemma written_ids_from_schema:
  assumes "unpackMapping toCamel data gs = Ok m" and "visits ord (Clientbound m)"
  shows "\<exists>cm sm.
     navigate data gs ''toClient'' = Ok cm \<and> navigate data gs ''toServer'' = Ok sm \<and>
     snd ` set (rangeOver oc (Clientbound (EnsureUniqueNames ord m))) \<subseteq> fst ` set cm \<and>
     snd ` set (rangeOver os (Serverbound (EnsureUniqueNames ord m))) \<subseteq> fst ` set sm"
proof -
  from resolved_ids_from_schema [OF assms] obtain cm sm where
    n: "navigate data gs ''toClient'' = Ok cm" "navigate data gs ''toServer'' = Ok sm"
    and r: "ran (Clientbound (EnsureUniqueNames ord m)) \<subseteq> fst ` set cm"
      "ran (Serverbound (EnsureUniqueNames ord m)) \<subseteq> fst ` set sm"
    by (elim exE conjE)
  have c: "snd ` set (rangeOver oc (Clientbound (EnsureUniqueNames ord m))) \<subseteq> fst ` set cm"
    using rangeOver_values r(1) by (rule subset_trans)
  have s: "snd ` set (rangeOver os (Serverbound (EnsureUniqueNames ord m))) \<subseteq> fst ` set sm"
    using rangeOver_values r(2) by (rule subset_trans)
  show ?thesis using n c s by (intro exI conjI)
qed

text \<open>
  C6. In a successful run the file is the header followed by one constant block: the
  opening line, then the groups login-clientbound, login-serverbound, a blank line,
  play-clientbound, play-serverbound, a blank line, status-clientbound, status-serverbound,
  a blank line, and the closing line. A group is its comment line and then one declaration
  line for each entry of its resolved mapping (the entries written for a mapping are the
  entries of that mapping, each name once): the name padded with spaces, the type
  annotation, and the id. Every id written is, unchanged, a key of the table the schema
  holds for that phase and direction.
\<close>

theorem generated_file_layout:
  assumes "downloadInfo toCamel (Inr data) oLogin oPlay oStatus = Ok p"
    and "ordersVisit om p" and "ordersVisit ow p"
    and "\<forall>m. unpackMapping toCamel data ''login'' = Ok m \<longrightarrow> visits oLogin (Clientbound m)"
    and "\<forall>m. unpackMapping toCamel data ''play'' = Ok m \<longrightarrow> visits oPlay (Clientbound m)"
    and "\<forall>m. unpackMapping toCamel data ''status'' = Ok m \<longrightarrow> visits oStatus (Clientbound m)"
  shows "main toCamel q (Inr data) oLogin oPlay oStatus om ow None =
       Exited 0 [] (Some (header @ constBlock (MaxLen om p)
        (rangeOver (loginC ow) (Clientbound (Login p))) (rangeOver (loginS ow) (Serverbound (Login p)))
        (rangeOver (playC ow) (Clientbound (Play p))) (rangeOver (playS ow) (Serverbound (Play p)))
        (rangeOver (statusC ow) (Clientbound (Status p))) (rangeOver (statusS ow) (Serverbound (Status p)))))
     \<and> (\<forall>kv \<in> set (writtenEntries ow p).
           decl (MaxLen om p) kv
             = ''  '' @ fst kv @ replicate (nat (MaxLen om p - int (length (fst kv)))) (CHR '' '')
                 @ '' PktID = '' @ snd kv @ nl
           \<and> int (length (fst kv)) \<le> MaxLen om p)
     \<and> distinct (map fst (rangeOver (loginC ow) (Clientbound (Login p))))
     \<and> map_of (rangeOver (loginC ow) (Clientbound (Login p))) = Clientbound (Login p)
     \<and> distinct (map fst (rangeOver (loginS ow) (Serverbound (Login p))))
     \<and> map_of (rangeOver (loginS ow) (Serverbound (Login p))) = Serverbound (Login p)
     \<and> distinct (map fst (rangeOver (playC ow) (Clientbound (Play p))))
     \<and> map_of (rangeOver (playC ow) (Clientbound (Play p))) = Clientbound (Play p)
     \<and> distinct (map fst (rangeOver (playS ow) (Serverbound (Play p))))
     \<and> map_of (rangeOver (playS ow) (Serverbound (Play p))) = Serverbound (Play p)
     \<and> distinct (map fst (rangeOver (statusC ow) (Clientbound (Status p))))
     \<and> map_of (rangeOver (statusC ow) (Clientbound (Status p))) = Clientbound (Status p)
     \<and> distinct (map fst (rangeOver (statusS ow) (Serverbound (Status p))))
     \<and> map_of (rangeOver (statusS ow) (Serverbound (Status p))) = Serverbound (Status p)
     \<and> (\<exists>cm sm. navigate data ''login'' ''toClient'' = Ok cm \<and> navigate data ''login'' ''toServer'' = Ok sm
           \<and> snd ` set (rangeOver (loginC ow) (Clientbound (Login p))) \<subseteq> fst ` set cm
           \<and> snd ` set (rangeOver (loginS ow) (Serverbound (Login p))) \<subseteq> fst ` set sm)
     \<and> (\<exists>cm sm. navigate data ''play'' ''toClient'' = Ok cm \<and> navigate data ''play'' ''toServer'' = Ok sm
           \<and> snd ` set (rangeOver (playC ow) (Clientbound (Play p))) \<subseteq> fst ` set cm
           \<and> snd ` set (rangeOver (playS ow) (Serverbound (Play p))) \<subseteq> fst ` set sm)
     \<and> (\<exists>cm sm. navigate data ''status'' ''toClient'' = Ok cm \<and> navigate data ''status'' ''toServer'' = Ok sm
           \<and> snd ` set (rangeOver (statusC ow) (Clientbound (Status p))) \<subseteq> fst ` set cm
           \<and> snd ` set (rangeOver (statusS ow) (Serverbound (Status p))) \<subseteq> fst ` set sm)"
proof -
  from downloadInfo_Ok [OF assms(1)] obtain mL mP mS where
    u: "unpackMapping toCamel data ''login'' = Ok mL" "unpackMapping toCamel data ''play'' = Ok mP"
       "unpackMapping toCamel data ''status'' = Ok mS"
    and p: "Login p = EnsureUniqueNames oLogin mL" "Play p = EnsureUniqueNames oPlay mP"
       "Status p = EnsureUniqueNames oStatus mS"
    by (elim exE conjE)
  have r: "visits oLogin (Clientbound mL)" "visits oPlay (Clientbound mP)" "visits oStatus (Clientbound mS)"
    using assms(4,5,6) u by blast+
  have v: "visits (loginC ow) (Clientbound (Login p))" "visits (loginS ow) (Serverbound (Login p))"
    "visits (playC ow) (Clientbound (Play p))" "visits (playS ow) (Serverbound (Play p))"
    "visits (statusC ow) (Clientbound (Status p))" "visits (statusS ow) (Serverbound (Status p))"
    using assms(3) by (simp_all add: ordersVisit_def)
  have d: "\<And>ord m. visits ord m \<Longrightarrow> distinct (map fst (rangeOver ord m))"
    by (simp add: distinct_rangeOver_keys visits_def)
  have line: "\<forall>kv \<in> set (writtenEntries ow p).
           decl (MaxLen om p) kv
             = ''  '' @ fst kv @ replicate (nat (MaxLen om p - int (length (fst kv)))) (CHR '' '')
                 @ '' PktID = '' @ snd kv @ nl
           \<and> int (length (fst kv)) \<le> MaxLen om p"
  proof
    fix kv
    assume "kv \<in> set (writtenEntries ow p)"
    then have "fst kv \<in> allNames p" using writtenEntries_names_subset by blast
    then have "int (length (fst kv)) \<le> MaxLen om p" by (rule MaxLen_bound [OF assms(2)])
    then show "decl (MaxLen om p) kv
             = ''  '' @ fst kv @ replicate (nat (MaxLen om p - int (length (fst kv)))) (CHR '' '')
                 @ '' PktID = '' @ snd kv @ nl
           \<and> int (length (fst kv)) \<le> MaxLen om p"
      by (simp add: decl_def padded_def)
  qed
  show ?thesis
    using main_writes [OF assms(1,2), of q ow] line v [THEN d] v [THEN visits_map_of]
      written_ids_from_schema [OF u(1) r(1), of "loginC ow" "loginS ow", folded p]
      written_ids_from_schema [OF u(2) r(2), of "playC ow" "playS ow", folded p]
      written_ids_from_schema [OF u(3) r(3), of "statusC ow" "statusS ow", folded p]
    by (intro conjI)
qed

lemma exampleDoc_resolve_orders:
  "\<forall>m. unpackMapping ToCamel exampleDoc ''login'' = Ok m \<longrightarrow> visits [''Disconnect''] (Clientbound m)"
  "\<forall>m. unpackMapping ToCamel exampleDoc ''play'' = Ok m \<longrightarrow> visits [''Chat'', ''SpawnEntity''] (Clientbound m)"
  "\<forall>m. unpackMapping ToCamel exampleDoc ''status'' = Ok m \<longrightarrow> visits [] (Clientbound m)"
  by (auto simp: exampleDoc_login exampleDoc_play exampleDoc_status visits_def)

theorem generated_file_layout_witness:
  "downloadInfo ToCamel (Inr exampleDoc) [''Disconnect''] [''Chat'', ''SpawnEntity''] [] = Ok exampleIDs
   \<and> ordersVisit exampleOrders exampleIDs
   \<and> visits [''Chat'', ''SpawnEntity'']
        (Clientbound \<lparr>Clientbound = [''SpawnEntity'' \<mapsto> ''0x00'', ''Chat'' \<mapsto> ''0x0e''],
                      Serverbound = [''Chat'' \<mapsto> ''0x03'']\<rparr>)
   \<and> main ToCamel quotePrintable (Inr exampleDoc) [''Disconnect''] [''Chat'', ''SpawnEntity''] []
        exampleOrders exampleOrders None
      = Exited 0 []
          (Some (header @ constBlock 15
             [(''Disconnect'', ''0x00'')] [(''LoginStart'', ''0x00'')]
             [(''SpawnEntity'', ''0x00''), (''ChatClientbound'', ''0x0e'')] [(''ChatServerbound'', ''0x03'')]
             [] [(''PingStart'', ''0x00'')]))
   \<and> map_of [(''SpawnEntity'', ''0x00''), (''ChatClientbound'', ''0x0e'')] = Clientbound (Play exampleIDs)"
proof -
  note t = generated_file_layout [OF exampleDoc_download exampleOrders_visit exampleOrders_visit
      exampleDoc_resolve_orders, of quotePrintable, unfolded example_MaxLen example_entries]
  show ?thesis
    by (intro conjI)
      (rule exampleDoc_download, rule exampleOrders_visit, rule chatPlay_visits,
        rule t [THEN conjunct1],
        rule t [THEN conjunct2, THEN conjunct2, THEN conjunct2, THEN conjunct2, THEN conjunct2,
          THEN conjunct2, THEN conjunct2, THEN conjunct1])
qed

section \<open>Errors and panics of the navigation\<close>

lemma unnest_Err_offending: "unnest input keys = Err e \<Longrightarrow> offending input keys e"
proof (induction keys arbitrary: input)
  case Nil
  then show ?case by simp
next
  case (Cons k keys)
  show ?case
  proof (cases "map_of input k")
    case None
    then have "e = KeyNotFound k" using Cons.prems by simp
    then have "k # keys = [] @ k # keys \<and> walks input [] input \<and>
        (case map_of input k of None \<Rightarrow> e = KeyNotFound k
         | Some sub \<Rightarrow> (\<forall>m. sub \<noteq> JObj m) \<and> e = WrongType k sub)"
      using None by (simp add: walks_done)
    then show ?thesis unfolding offending_def by blast
  next
    case (Some sub)
    show ?thesis
    proof (cases "\<exists>next. sub = JObj next")
      case True
      then obtain nxt where n: "sub = JObj nxt" by blast
      then have "unnest nxt keys = Err e" using Cons.prems Some by simp
      then have "offending nxt keys e" by (rule Cons.IH)
      then obtain pre k' post cur where
        o: "keys = pre @ k' # post" "walks nxt pre cur"
          "(case map_of cur k' of None \<Rightarrow> e = KeyNotFound k'
            | Some sub \<Rightarrow> (\<forall>m. sub \<noteq> JObj m) \<and> e = WrongType k' sub)"
        unfolding offending_def by blast
      have "walks input (k # pre) cur"
        using Some n o(2) by (simp add: walks_step)
      moreover have "k # keys = (k # pre) @ k' # post" using o(1) by simp
      ultimately show ?thesis unfolding offending_def using o(3) by blast
    next
      case False
      then have "e = WrongType k sub" using Cons.prems Some by (cases sub) simp_all
      then have "k # keys = [] @ k # keys \<and> walks input [] input \<and>
        (case map_of input k of None \<Rightarrow> e = KeyNotFound k
         | Some sub \<Rightarrow> (\<forall>m. sub \<noteq> JObj m) \<and> e = WrongType k sub)"
        using Some False by (simp add: walks_done)
      then show ?thesis unfolding offending_def by blast
    qed
  qed
qed

lemma walks_offending_unnest:
  "walks input pre cur \<Longrightarrow>
     (case map_of cur k of None \<Rightarrow> e = KeyNotFound k
      | Some sub \<Rightarrow> (\<forall>m. sub \<noteq> JObj m) \<and> e = WrongType k sub) \<Longrightarrow>
     unnest input (pre @ k # post) = Err e"
proof (induction rule: walks.induct)
  case (walks_done input)
  then show ?case by (auto split: option.splits json.splits)
next
  case (walks_step input k' nxt keys out)
  then show ?case by simp
qed

lemma offending_unnest_Err: "offending input keys e \<Longrightarrow> unnest input keys = Err e"
  unfolding offending_def using walks_offending_unnest by blast

lemma asList_Ok_iff: "asList v = Ok xs \<longleftrightarrow> v = JArr xs"
  by (cases v) (simp_all add: asList_def)

lemma asMap_Ok_iff: "asMap v = Ok m \<longleftrightarrow> v = JObj m"
  by (cases v) (simp_all add: asMap_def)

lemma indexAt_Ok_iff: "indexAt xs i = Ok y \<longleftrightarrow> i < length xs \<and> xs ! i = y"
  by (simp add: indexAt_def)

lemma getKey_JArr_iff: "getKey m k = JArr xs \<longleftrightarrow> map_of m k = Some (JArr xs)"
  by (simp add: getKey_def split: option.splits)

lemma getKey_JObj_iff: "getKey m k = JObj kvs \<longleftrightarrow> map_of m k = Some (JObj kvs)"
  by (simp add: getKey_def split: option.splits)

lemma leafMappings_Ok_iff: "leafMappings info = Ok cm \<longleftrightarrow> leafShape info cm"
  unfolding leafMappings_def leafShape_def Let_def bindR_Ok_iff asList_Ok_iff asMap_Ok_iff
    indexAt_Ok_iff getKey_JArr_iff getKey_JObj_iff
  by auto

lemma collectNames_strings:
  "namesAreStrings cm \<Longrightarrow> \<exists>out'. collectNames toCamel cm out = Ok out'"
proof (induction cm arbitrary: out)
  case Nil
  then show ?case by simp
next
  case (Cons kv cm)
  obtain k v where kv: "kv = (k, v)" by (cases kv)
  then obtain s where "v = JStr s" using Cons.prems by (auto simp: namesAreStrings_def)
  moreover have "namesAreStrings cm" using Cons.prems by (simp add: namesAreStrings_def)
  ultimately show ?case using Cons.IH kv by simp
qed

lemma collectNames_not_strings:
  "\<not> namesAreStrings cm \<Longrightarrow> collectNames toCamel cm out = Panic InterfaceConversion"
proof (induction cm arbitrary: out)
  case Nil
  then show ?case by (simp add: namesAreStrings_def)
next
  case (Cons kv cm)
  obtain k v where kv: "kv = (k, v)" by (cases kv)
  show ?case
  proof (cases "\<exists>s. v = JStr s")
    case True
    then have "\<not> namesAreStrings cm" using Cons.prems kv by (auto simp: namesAreStrings_def)
    then show ?thesis using Cons.IH True kv by auto
  next
    case False
    then show ?thesis using kv by (cases v) simp_all
  qed
qed

text \<open>The navigation of one direction: the two chained reads and the loop.\<close>

lemma direction_error:
  "offending data [gs, d, ''types''] e \<Longrightarrow>
     bindR (navigate data gs d) (\<lambda>cm. collectNames toCamel cm Map.empty) = Err e"
proof -
  assume "offending data [gs, d, ''types''] e"
  then have u: "unnest data [gs, d, ''types''] = Err e" by (rule offending_unnest_Err)
  show ?thesis using u by (simp add: navigate_def bindR_def)
qed

lemma direction_panic:
  assumes "breaksLater data gs d"
  shows "\<exists>pn. bindR (navigate data gs d) (\<lambda>cm. collectNames toCamel cm Map.empty) = Panic pn"
proof -
  from assms obtain info where
    w: "walks data [gs, d, ''types''] info" and b: "\<forall>cm. leafShape info cm \<longrightarrow> \<not> namesAreStrings cm"
    unfolding breaksLater_def by blast
  have u: "unnest data [gs, d, ''types''] = Ok info" using w by (rule walks_unnest_Ok)
  show ?thesis
  proof (cases "leafMappings info")
    case (Ok cm)
    then have "\<not> namesAreStrings cm" using b by (simp add: leafMappings_Ok_iff)
    then have "collectNames toCamel cm Map.empty = Panic InterfaceConversion"
      by (rule collectNames_not_strings)
    then show ?thesis using u Ok by (simp add: navigate_def bindR_def)
  next
    case (Err e)
    then show ?thesis using leafMappings_no_Err by blast
  next
    case (Panic pn)
    then show ?thesis using u by (simp add: navigate_def bindR_def)
  qed
qed

lemma direction_read:
  assumes "readsTable data gs d cm"
  shows "\<exists>out. bindR (navigate data gs d) (\<lambda>cm. collectNames toCamel cm Map.empty) = Ok out"
proof -
  from assms obtain info where
    w: "walks data [gs, d, ''types''] info" and l: "leafShape info cm" and s: "namesAreStrings cm"
    unfolding readsTable_def by blast
  have u: "unnest data [gs, d, ''types''] = Ok info" using w by (rule walks_unnest_Ok)
  have m: "leafMappings info = Ok cm" using l by (simp add: leafMappings_Ok_iff)
  from collectNames_strings [OF s, of toCamel Map.empty] obtain out where
    "collectNames toCamel cm Map.empty = Ok out" by blast
  then show ?thesis using u m by (simp add: navigate_def bindR_def)
qed

lemma direction_cases:
  "(\<exists>e. offending data [gs, d, ''types''] e) \<or> breaksLater data gs d \<or> (\<exists>cm. readsTable data gs d cm)"
proof (cases "unnest data [gs, d, ''types'']")
  case (Ok info)
  then have w: "walks data [gs, d, ''types''] info" by (rule unnest_Ok_walks)
  show ?thesis
  proof (cases "\<exists>cm. leafShape info cm \<and> namesAreStrings cm")
    case True
    then show ?thesis using w unfolding readsTable_def by blast
  next
    case False
    then show ?thesis using w unfolding breaksLater_def by blast
  qed
next
  case (Err e)
  then show ?thesis using unnest_Err_offending by blast
next
  case (Panic pn)
  then show ?thesis using unnest_no_panic by blast
qed

lemma unpackMapping_directions:
  "unpackMapping toCamel data gs =
     bindR (bindR (navigate data gs ''toClient'') (\<lambda>cm. collectNames toCamel cm Map.empty)) (\<lambda>cb.
     bindR (bindR (navigate data gs ''toServer'') (\<lambda>sm. collectNames toCamel sm Map.empty)) (\<lambda>sb.
     Ok \<lparr>Clientbound = cb, Serverbound = sb\<rparr>))"
  unfolding unpackMapping_navigate
  by (simp add: bindR_def split: result.splits)

text \<open>
  C1 (as amended). The navigation of a phase reads the clientbound direction, then the
  serverbound direction. In the direction it is reading, when the phase key, the
  direction key or the key "types" is absent or holds something that is not an object, it
  returns the error that names that key, the first such key of the path. When these three
  keys are walked and a later step does not match (the key "packet", the positions in the
  lists, the keys "type" and "mappings", a name that is not a string), it does not return
  an error: it panics. It returns the two mappings when both directions are read. Each
  direction is in exactly one of the three cases, so these are all the errors and all the
  panics.
\<close>

theorem unpackMapping_errors_and_panics:
  "(offending data [gs, ''toClient'', ''types''] e \<longrightarrow> unpackMapping toCamel data gs = Err e)
   \<and> (breaksLater data gs ''toClient'' \<longrightarrow> (\<exists>pn. unpackMapping toCamel data gs = Panic pn))
   \<and> (readsTable data gs ''toClient'' cm \<and> offending data [gs, ''toServer'', ''types''] e
        \<longrightarrow> unpackMapping toCamel data gs = Err e)
   \<and> (readsTable data gs ''toClient'' cm \<and> breaksLater data gs ''toServer''
        \<longrightarrow> (\<exists>pn. unpackMapping toCamel data gs = Panic pn))
   \<and> (readsTable data gs ''toClient'' cm \<and> readsTable data gs ''toServer'' sm
        \<longrightarrow> (\<exists>m. unpackMapping toCamel data gs = Ok m))
   \<and> ((\<exists>e'. offending data [gs, d, ''types''] e') \<or> breaksLater data gs d
        \<or> (\<exists>cm'. readsTable data gs d cm'))
   \<and> (unpackMapping toCamel data gs = Err e \<longrightarrow>
        offending data [gs, ''toClient'', ''types''] e
        \<or> ((\<exists>cm'. readsTable data gs ''toClient'' cm') \<and> offending data [gs, ''toServer'', ''types''] e))
   \<and> (unpackMapping toCamel data gs = Panic pn \<longrightarrow>
        breaksLater data gs ''toClient''
        \<or> ((\<exists>cm'. readsTable data gs ''toClient'' cm') \<and> breaksLater data gs ''toServer''))"
proof -
  let ?C = "bindR (navigate data gs ''toClient'') (\<lambda>cm. collectNames toCamel cm Map.empty)"
  let ?S = "bindR (navigate data gs ''toServer'') (\<lambda>sm. collectNames toCamel sm Map.empty)"
  have u: "unpackMapping toCamel data gs =
      bindR ?C (\<lambda>cb. bindR ?S (\<lambda>sb. Ok \<lparr>Clientbound = cb, Serverbound = sb\<rparr>))"
    by (rule unpackMapping_directions)
  have cE: "unpackMapping toCamel data gs = Err x" if "offending data [gs, ''toClient'', ''types''] x" for x
    using direction_error [OF that, of toCamel] by (simp add: u bindR_def)
  have cP: "\<exists>pn. unpackMapping toCamel data gs = Panic pn" if "breaksLater data gs ''toClient''"
    using direction_panic [OF that, of toCamel] by (auto simp: u bindR_def)
  have cR: "\<exists>cb. ?C = Ok cb" if "readsTable data gs ''toClient'' x" for x
    using direction_read [OF that, of toCamel] .
  have sE: "unpackMapping toCamel data gs = Err x"
    if "readsTable data gs ''toClient'' y" "offending data [gs, ''toServer'', ''types''] x" for x y
    using cR [OF that(1)] direction_error [OF that(2), of toCamel] by (auto simp: u bindR_def)
  have sP: "\<exists>pn. unpackMapping toCamel data gs = Panic pn"
    if "readsTable data gs ''toClient'' y" "breaksLater data gs ''toServer''" for y
    using cR [OF that(1)] direction_panic [OF that(2), of toCamel] by (auto simp: u bindR_def)
  have sR: "\<exists>m. unpackMapping toCamel data gs = Ok m"
    if "readsTable data gs ''toClient'' y" "readsTable data gs ''toServer'' z" for y z
    using cR [OF that(1)] direction_read [OF that(2), of toCamel] by (auto simp: u bindR_def)
  have cases: "(\<exists>e'. offending data [gs, d, ''types''] e') \<or> breaksLater data gs d
        \<or> (\<exists>cm'. readsTable data gs d cm')" for d
    by (rule direction_cases)
  have onlyErr: "offending data [gs, ''toClient'', ''types''] e
        \<or> ((\<exists>cm'. readsTable data gs ''toClient'' cm') \<and> offending data [gs, ''toServer'', ''types''] e)"
    if r: "unpackMapping toCamel data gs = Err e"
  proof -
    consider x where "offending data [gs, ''toClient'', ''types''] x"
      | "breaksLater data gs ''toClient''"
      | y where "readsTable data gs ''toClient'' y"
      using cases [of "''toClient''"] by blast
    then show ?thesis
    proof cases
      case 1
      then show ?thesis using cE [OF 1] r by simp
    next
      case 2
      then show ?thesis using cP [OF 2] r by simp
    next
      case 3
      consider x where "offending data [gs, ''toServer'', ''types''] x"
        | "breaksLater data gs ''toServer''"
        | z where "readsTable data gs ''toServer'' z"
        using cases [of "''toServer''"] by blast
      then show ?thesis
      proof cases
        case 1
        then show ?thesis using sE [OF 3 1] r 3 by auto
      next
        case 2
        then show ?thesis using sP [OF 3 2] r by simp
      next
        case 3
        then show ?thesis using sR [OF \<open>readsTable data gs ''toClient'' y\<close> 3] r by simp
      qed
    qed
  qed
  have onlyPanic: "breaksLater data gs ''toClient''
        \<or> ((\<exists>cm'. readsTable data gs ''toClient'' cm') \<and> breaksLater data gs ''toServer'')"
    if r: "unpackMapping toCamel data gs = Panic pn"
  proof -
    consider x where "offending data [gs, ''toClient'', ''types''] x"
      | "breaksLater data gs ''toClient''"
      | y where "readsTable data gs ''toClient'' y"
      using cases [of "''toClient''"] by blast
    then show ?thesis
    proof cases
      case 1
      then show ?thesis using cE [OF 1] r by simp
    next
      case 2
      then show ?thesis by simp
    next
      case 3
      consider x where "offending data [gs, ''toServer'', ''types''] x"
        | "breaksLater data gs ''toServer''"
        | z where "readsTable data gs ''toServer'' z"
        using cases [of "''toServer''"] by blast
      then show ?thesis
      proof cases
        case 1
        then show ?thesis using sE [OF 3 1] r by simp
      next
        case 2
        then show ?thesis using 3 by auto
      next
        case 3
        then show ?thesis using sR [OF \<open>readsTable data gs ''toClient'' y\<close> 3] r by simp
      qed
    qed
  qed
  show ?thesis
  proof (intro conjI impI)
    show "unpackMapping toCamel data gs = Err e" if "offending data [gs, ''toClient'', ''types''] e"
      using that by (rule cE)
    show "\<exists>pn. unpackMapping toCamel data gs = Panic pn" if "breaksLater data gs ''toClient''"
      using that by (rule cP)
    show "unpackMapping toCamel data gs = Err e"
      if "readsTable data gs ''toClient'' cm \<and> offending data [gs, ''toServer'', ''types''] e"
      using that sE by blast
    show "\<exists>pn. unpackMapping toCamel data gs = Panic pn"
      if "readsTable data gs ''toClient'' cm \<and> breaksLater data gs ''toServer''"
      using that sP by blast
    show "\<exists>m. unpackMapping toCamel data gs = Ok m"
      if "readsTable data gs ''toClient'' cm \<and> readsTable data gs ''toServer'' sm"
      using that sR by blast
    show "(\<exists>e'. offending data [gs, d, ''types''] e') \<or> breaksLater data gs d
        \<or> (\<exists>cm'. readsTable data gs d cm')"
      by (rule cases)
    show "offending data [gs, ''toClient'', ''types''] e
        \<or> ((\<exists>cm'. readsTable data gs ''toClient'' cm') \<and> offending data [gs, ''toServer'', ''types''] e)"
      if "unpackMapping toCamel data gs = Err e"
      using that by (rule onlyErr)
    show "breaksLater data gs ''toClient''
        \<or> ((\<exists>cm'. readsTable data gs ''toClient'' cm') \<and> breaksLater data gs ''toServer'')"
      if "unpackMapping toCamel data gs = Panic pn"
      using that by (rule onlyPanic)
  qed
qed

lemma leafShape_packetEntry: "leafShape [(''packet'', packetEntry m)] cm \<longleftrightarrow> cm = m"
  using leafMappings_Ok_iff [of "[(''packet'', packetEntry m)]" cm]
  by (auto simp: leafMappings_packetEntry)

lemma readsTable_phaseSchema_client:
  "namesAreStrings cm \<Longrightarrow>
     readsTable ((gs, JObj ((''toClient'', JObj [(''types'', JObj [(''packet'', packetEntry cm)])]) # rest)) # others)
       gs ''toClient'' cm"
proof -
  assume s: "namesAreStrings cm"
  have "unnest ((gs, JObj ((''toClient'', JObj [(''types'', JObj [(''packet'', packetEntry cm)])]) # rest)) # others)
          [gs, ''toClient'', ''types''] = Ok [(''packet'', packetEntry cm)]"
    by simp
  then have "walks ((gs, JObj ((''toClient'', JObj [(''types'', JObj [(''packet'', packetEntry cm)])]) # rest)) # others)
          [gs, ''toClient'', ''types''] [(''packet'', packetEntry cm)]"
    by (rule unnest_Ok_walks)
  then show ?thesis
    unfolding readsTable_def using s leafShape_packetEntry by blast
qed

lemma example_offending_client:
  "offending [(''login'', JObj [])] [''login'', ''toClient'', ''types''] (KeyNotFound ''toClient'')"
  by (rule unnest_Err_offending) simp

lemma noPacketDoc_breaks: "breaksLater noPacketDoc ''login'' ''toClient''"
proof -
  have "unnest noPacketDoc [''login'', ''toClient'', ''types''] = Ok []"
    by (simp add: noPacketDoc_def)
  then have "walks noPacketDoc [''login'', ''toClient'', ''types''] []"
    by (rule unnest_Ok_walks)
  moreover have "\<forall>cm. leafShape [] cm \<longrightarrow> \<not> namesAreStrings cm"
    by (simp add: leafShape_def)
  ultimately show ?thesis unfolding breaksLater_def by blast
qed

lemma noServerDoc_reads: "readsTable noServerDoc ''login'' ''toClient'' []"
  unfolding noServerDoc_def
  by (rule readsTable_phaseSchema_client) (simp add: namesAreStrings_def)

lemma noServerDoc_offending:
  "offending noServerDoc [''login'', ''toServer'', ''types''] (KeyNotFound ''toServer'')"
  by (rule unnest_Err_offending) (simp add: noServerDoc_def)

lemma noServerPacketDoc_reads: "readsTable noServerPacketDoc ''login'' ''toClient'' []"
  unfolding noServerPacketDoc_def
  by (rule readsTable_phaseSchema_client) (simp add: namesAreStrings_def)

lemma noServerPacketDoc_breaks: "breaksLater noServerPacketDoc ''login'' ''toServer''"
proof -
  have "unnest noServerPacketDoc [''login'', ''toServer'', ''types''] = Ok []"
    by (simp add: noServerPacketDoc_def)
  then have "walks noServerPacketDoc [''login'', ''toServer'', ''types''] []"
    by (rule unnest_Ok_walks)
  moreover have "\<forall>cm. leafShape [] cm \<longrightarrow> \<not> namesAreStrings cm"
    by (simp add: leafShape_def)
  ultimately show ?thesis unfolding breaksLater_def by blast
qed

lemma numberNameDoc_reads: "readsTable numberNameDoc ''login'' ''toClient'' []"
  unfolding numberNameDoc_def phaseSchema_def
  by (rule readsTable_phaseSchema_client) (simp add: namesAreStrings_def)

lemma numberNameDoc_breaks: "breaksLater numberNameDoc ''login'' ''toServer''"
proof -
  have "unnest numberNameDoc [''login'', ''toServer'', ''types'']
          = Ok [(''packet'', packetEntry [(''0x00'', JNum 7)])]"
    by (simp add: numberNameDoc_def phaseSchema_def)
  then have "walks numberNameDoc [''login'', ''toServer'', ''types'']
          [(''packet'', packetEntry [(''0x00'', JNum 7)])]"
    by (rule unnest_Ok_walks)
  moreover have "\<forall>cm. leafShape [(''packet'', packetEntry [(''0x00'', JNum 7)])] cm
          \<longrightarrow> \<not> namesAreStrings cm"
    by (simp add: leafShape_packetEntry namesAreStrings_def)
  ultimately show ?thesis unfolding breaksLater_def by blast
qed

theorem unpackMapping_errors_and_panics_witness:
  "offending [(''login'', JObj [])] [''login'', ''toClient'', ''types''] (KeyNotFound ''toClient'')
   \<and> unpackMapping ToCamel [(''login'', JObj [])] ''login'' = Err (KeyNotFound ''toClient'')
   \<and> breaksLater noPacketDoc ''login'' ''toClient''
   \<and> (\<exists>pn. unpackMapping ToCamel noPacketDoc ''login'' = Panic pn)
   \<and> readsTable noServerDoc ''login'' ''toClient'' []
   \<and> offending noServerDoc [''login'', ''toServer'', ''types''] (KeyNotFound ''toServer'')
   \<and> unpackMapping ToCamel noServerDoc ''login'' = Err (KeyNotFound ''toServer'')
   \<and> breaksLater noServerPacketDoc ''login'' ''toServer''
   \<and> (\<exists>pn. unpackMapping ToCamel noServerPacketDoc ''login'' = Panic pn)
   \<and> breaksLater numberNameDoc ''login'' ''toServer''
   \<and> (\<exists>pn. unpackMapping ToCamel numberNameDoc ''login'' = Panic pn)"
proof -
  note a = unpackMapping_errors_and_panics [where data = "[(''login'', JObj [])]" and gs = "''login''"
      and e = "KeyNotFound ''toClient''" and toCamel = ToCamel,
      THEN conjunct1, THEN mp, OF example_offending_client]
  note b = unpackMapping_errors_and_panics [where data = noPacketDoc and gs = "''login''"
      and toCamel = ToCamel,
      THEN conjunct2, THEN conjunct1, THEN mp, OF noPacketDoc_breaks]
  note c = unpackMapping_errors_and_panics [where data = noServerDoc and gs = "''login''"
      and e = "KeyNotFound ''toServer''" and toCamel = ToCamel and cm = "[]",
      THEN conjunct2, THEN conjunct2, THEN conjunct1, THEN mp,
      OF conjI [OF noServerDoc_reads noServerDoc_offending]]
  note d = unpackMapping_errors_and_panics [where data = noServerPacketDoc and gs = "''login''"
      and toCamel = ToCamel and cm = "[]",
      THEN conjunct2, THEN conjunct2, THEN conjunct2, THEN conjunct1, THEN mp,
      OF conjI [OF noServerPacketDoc_reads noServerPacketDoc_breaks]]
  note f = unpackMapping_errors_and_panics [where data = numberNameDoc and gs = "''login''"
      and toCamel = ToCamel and cm = "[]",
      THEN conjunct2, THEN conjunct2, THEN conjunct2, THEN conjunct1, THEN mp,
      OF conjI [OF numberNameDoc_reads numberNameDoc_breaks]]
  show ?thesis
    by (intro conjI)
      (rule example_offending_client, rule a, rule noPacketDoc_breaks, rule b,
        rule noServerDoc_reads, rule noServerDoc_offending, rule c,
        rule noServerPacketDoc_breaks, rule d, rule numberNameDoc_breaks, rule f)
qed

section \<open>The alignment width in the generated file\<close>

text \<open>
  C5. The alignment width is the length of the longest name over all the names of the six
  mappings together (zero when there is none). A run that has these mappings writes the
  file with that width, and in that file every declaration line is two spaces, the
  identifier field, the type annotation and the id, where the identifier field (the name
  and its padding) is exactly that wide.
\<close>

theorem MaxLen_is_longest_name:
  assumes "ordersVisit om p"
  shows "MaxLen om p = (if allNames p = {} then 0 else Max ((\<lambda>k. int (length k)) ` allNames p))
     \<and> (downloadInfo toCamel fetched oLogin oPlay oStatus = Ok p \<longrightarrow>
          main toCamel q fetched oLogin oPlay oStatus om ow None
            = Exited 0 [] (Some (generatedFile (MaxLen om p) ow p)))
     \<and> writeFile (MaxLen om p) ow p = (generatedFile (MaxLen om p) ow p, None)
     \<and> filter isDecl (generatedFile (MaxLen om p) ow p)
         = map (\<lambda>kv. ''  '' @ padded (MaxLen om p) (fst kv) @ '' PktID = '' @ snd kv @ nl)
             (writtenEntries ow p)
     \<and> (\<forall>kv \<in> set (writtenEntries ow p).
          int (length (padded (MaxLen om p) (fst kv))) = MaxLen om p)"
proof -
  let ?L = "(\<lambda>k. int (length k)) ` allNames p"
  have fin: "finite ?L" using finite_allNames [OF assms] by simp
  have mx: "MaxLen om p = (if allNames p = {} then 0 else Max ?L)"
  proof (cases "allNames p = {}")
    case True
    then show ?thesis by (simp add: MaxLen_Max [OF assms])
  next
    case False
    then have ne: "?L \<noteq> {}" by simp
    have "0 \<le> Max ?L"
      using fin ne by (simp add: Max_ge_iff) auto
    then have "Max (insert 0 ?L) = Max ?L"
      using fin ne by (simp add: max_def)
    then show ?thesis using False by (simp add: MaxLen_Max [OF assms])
  qed
  have run: "downloadInfo toCamel fetched oLogin oPlay oStatus = Ok p \<longrightarrow>
          main toCamel q fetched oLogin oPlay oStatus om ow None
            = Exited 0 [] (Some (generatedFile (MaxLen om p) ow p))"
    using main_generates [OF _ assms] by (rule impI)
  have w: "\<forall>kv \<in> set (writtenEntries ow p). int (length (padded (MaxLen om p) (fst kv))) = MaxLen om p"
  proof
    fix kv
    assume "kv \<in> set (writtenEntries ow p)"
    then have "fst kv \<in> allNames p" using writtenEntries_names_subset by blast
    then have "int (length (fst kv)) \<le> MaxLen om p" by (rule MaxLen_bound [OF assms])
    then show "int (length (padded (MaxLen om p) (fst kv))) = MaxLen om p"
      by (rule length_padded)
  qed
  have d: "filter isDecl (generatedFile (MaxLen om p) ow p)
         = map (\<lambda>kv. ''  '' @ padded (MaxLen om p) (fst kv) @ '' PktID = '' @ snd kv @ nl)
             (writtenEntries ow p)"
    by (simp add: declarations_of_generatedFile decl_def)
  show ?thesis
    by (rule conjI [OF mx conjI [OF run conjI [OF writeFile_generates [OF assms] conjI [OF d w]]]])
qed

theorem MaxLen_is_longest_name_witness:
  "ordersVisit exampleOrders exampleIDs
   \<and> downloadInfo ToCamel (Inr exampleDoc) [''Disconnect''] [''Chat'', ''SpawnEntity''] [] = Ok exampleIDs
   \<and> MaxLen exampleOrders exampleIDs = 15
   \<and> main ToCamel quotePrintable (Inr exampleDoc) [''Disconnect''] [''Chat'', ''SpawnEntity''] []
        exampleOrders exampleOrders None
      = Exited 0 [] (Some (generatedFile 15 exampleOrders exampleIDs))
   \<and> writeFile 15 exampleOrders exampleIDs = (generatedFile 15 exampleOrders exampleIDs, None)
   \<and> filter isDecl (generatedFile 15 exampleOrders exampleIDs)
       = map (\<lambda>kv. ''  '' @ padded 15 (fst kv) @ '' PktID = '' @ snd kv @ nl)
           [(''Disconnect'', ''0x00''), (''LoginStart'', ''0x00''), (''SpawnEntity'', ''0x00''),
            (''ChatClientbound'', ''0x0e''), (''ChatServerbound'', ''0x03''), (''PingStart'', ''0x00'')]
   \<and> int (length (padded 15 ''Disconnect'')) = 15"
proof -
  have e: "writtenEntries exampleOrders exampleIDs =
      [(''Disconnect'', ''0x00''), (''LoginStart'', ''0x00''), (''SpawnEntity'', ''0x00''),
       (''ChatClientbound'', ''0x0e''), (''ChatServerbound'', ''0x03''), (''PingStart'', ''0x00'')]"
    by (simp add: writtenEntries_def example_entries)
  note t = MaxLen_is_longest_name [OF exampleOrders_visit, where ow = exampleOrders
      and toCamel = ToCamel and fetched = "Inr exampleDoc" and oLogin = "[''Disconnect'']"
      and oPlay = "[''Chat'', ''SpawnEntity'']" and oStatus = "[]" and q = quotePrintable,
      unfolded example_MaxLen e]
  have "(''Disconnect'', ''0x00'') \<in> set [(''Disconnect'', ''0x00''), (''LoginStart'', ''0x00''),
       (''SpawnEntity'', ''0x00''), (''ChatClientbound'', ''0x0e''), (''ChatServerbound'', ''0x03''),
       (''PingStart'', ''0x00'')]"
    by simp
  from t [THEN conjunct2, THEN conjunct2, THEN conjunct2, THEN conjunct2, THEN bspec, OF this]
  have l: "int (length (padded 15 ''Disconnect'')) = 15" by simp
  show ?thesis
    by (intro conjI)
      (rule exampleOrders_visit, rule exampleDoc_download, rule example_MaxLen,
        rule t [THEN conjunct2, THEN conjunct1, THEN mp, OF exampleDoc_download],
        rule t [THEN conjunct2, THEN conjunct2, THEN conjunct1],
        rule t [THEN conjunct2, THEN conjunct2, THEN conjunct2, THEN conjunct1],
        rule l)
qed

section \<open>When two declaration lines are the same text\<close>

lemma spaces_last: "us @ xs = replicate n c \<Longrightarrow> us \<noteq> [] \<Longrightarrow> last us = c"
proof -
  assume e: "us @ xs = replicate n c" and ne: "us \<noteq> []"
  have "last us \<in> set (us @ xs)" using ne by simp
  then have "last us \<in> set (replicate n c)" using e by simp
  then show ?thesis by (auto split: if_splits)
qed

lemma ends_with_space: "us \<noteq> [] \<Longrightarrow> last us = CHR '' '' \<Longrightarrow> suffix '' '' (k @ us)"
proof -
  assume "us \<noteq> []" and "last us = CHR '' ''"
  then have "us = butlast us @ '' ''" by (metis append_butlast_last_id)
  then have "k @ us = (k @ butlast us) @ '' ''" by (metis append_assoc)
  then show ?thesis unfolding suffix_def by blast
qed

lemma padded_inj:
  assumes "\<not> suffix '' '' k" and "\<not> suffix '' '' k'" and "padded a k = padded b k'"
  shows "k = k'"
proof -
  from assms(3) have e: "k @ replicate (nat (a - int (length k))) (CHR '' '')
      = k' @ replicate (nat (b - int (length k'))) (CHR '' '')"
    by (simp add: padded_def)
  from append_eq_append_conv2 [THEN iffD1, OF e] obtain us where
    c: "(k = k' @ us \<and> us @ replicate (nat (a - int (length k))) (CHR '' '')
             = replicate (nat (b - int (length k'))) (CHR '' ''))
        \<or> (k @ us = k' \<and> replicate (nat (a - int (length k))) (CHR '' '')
             = us @ replicate (nat (b - int (length k'))) (CHR '' ''))"
    by (elim exE)
  have "us = []"
  proof (rule ccontr)
    assume ne: "us \<noteq> []"
    from c show False
    proof
      assume h: "k = k' @ us \<and> us @ replicate (nat (a - int (length k))) (CHR '' '')
             = replicate (nat (b - int (length k'))) (CHR '' '')"
      then have "us @ replicate (nat (a - int (length k))) (CHR '' '')
             = replicate (nat (b - int (length k'))) (CHR '' '')" by (rule conjunct2)
      then have "last us = CHR '' ''" using ne by (rule spaces_last)
      with ne have "suffix '' '' (k' @ us)" by (rule ends_with_space)
      moreover have "k = k' @ us" using h by (rule conjunct1)
      ultimately show False using assms(1) by simp
    next
      assume h: "k @ us = k' \<and> replicate (nat (a - int (length k))) (CHR '' '')
             = us @ replicate (nat (b - int (length k'))) (CHR '' '')"
      then have "replicate (nat (a - int (length k))) (CHR '' '')
             = us @ replicate (nat (b - int (length k'))) (CHR '' '')" by (rule conjunct2)
      then have "us @ replicate (nat (b - int (length k'))) (CHR '' '')
             = replicate (nat (a - int (length k))) (CHR '' '')" by (rule sym)
      then have "last us = CHR '' ''" using ne by (rule spaces_last)
      with ne have "suffix '' '' (k @ us)" by (rule ends_with_space)
      moreover have "k @ us = k'" using h by (rule conjunct1)
      ultimately show False using assms(2) by simp
    qed
  qed
  then show ?thesis using c by auto
qed

lemma decl_inj:
  assumes "int (length (fst kv)) \<le> maxLen" and "int (length (fst kv')) \<le> maxLen"
    and "\<not> suffix '' '' (fst kv)" and "\<not> suffix '' '' (fst kv')"
    and "decl maxLen kv = decl maxLen kv'"
  shows "kv = kv'"
proof -
  have l: "length (padded maxLen (fst kv)) = length (padded maxLen (fst kv'))"
    using length_padded [OF assms(1)] length_padded [OF assms(2)] by simp
  from assms(5) have eq: "padded maxLen (fst kv) @ ('' PktID = '' @ snd kv @ nl)
      = padded maxLen (fst kv') @ ('' PktID = '' @ snd kv' @ nl)"
    by (simp add: decl_def)
  note pr = append_eq_append_conv [THEN iffD1, OF disjI1 [OF l] eq]
  note p = pr [THEN conjunct1] and r = pr [THEN conjunct2]
  have "fst kv = fst kv'" using assms(3,4) p by (rule padded_inj)
  moreover have "snd kv = snd kv'" using r by simp
  ultimately show ?thesis by (rule prod_eqI)
qed

lemma decl_inj_on_written:
  assumes "ordersVisit om p" and "\<forall>k \<in> allNames p. \<not> suffix '' '' k"
  shows "inj_on (decl (MaxLen om p)) (set (writtenEntries ow p))"
proof (rule inj_onI)
  fix kv kv'
  assume a: "kv \<in> set (writtenEntries ow p)" "kv' \<in> set (writtenEntries ow p)"
    and e: "decl (MaxLen om p) kv = decl (MaxLen om p) kv'"
  have n: "fst kv \<in> allNames p" "fst kv' \<in> allNames p"
    using a writtenEntries_names_subset by blast+
  show "kv = kv'"
    using MaxLen_bound [OF assms(1) n(1)] MaxLen_bound [OF assms(1) n(2)] assms(2) n e
    by (intro decl_inj [of kv "MaxLen om p" kv']) auto
qed

lemma group_lines_distinct:
  assumes "inj_on f (set (writtenEntries ow p))" and "distinct es"
    and "set es \<subseteq> set (writtenEntries ow p)"
  shows "distinct (map f es)"
  using assms by (simp add: distinct_map inj_on_subset)

lemma rangeOver_written:
  "set (rangeOver (loginC ow) (Clientbound (Login p))) \<subseteq> set (writtenEntries ow p)"
  "set (rangeOver (loginS ow) (Serverbound (Login p))) \<subseteq> set (writtenEntries ow p)"
  "set (rangeOver (playC ow) (Clientbound (Play p))) \<subseteq> set (writtenEntries ow p)"
  "set (rangeOver (playS ow) (Serverbound (Play p))) \<subseteq> set (writtenEntries ow p)"
  "set (rangeOver (statusC ow) (Clientbound (Status p))) \<subseteq> set (writtenEntries ow p)"
  "set (rangeOver (statusS ow) (Serverbound (Status p))) \<subseteq> set (writtenEntries ow p)"
  by (auto simp: writtenEntries_def)

text \<open>
  C7 (as amended). In a successful run the declaration lines of the file are exactly the
  lines of the entries of the six resolved mappings: their number is the sum of the sizes
  of the six mappings, and the entries written for a mapping are the entries of that
  mapping, each once, so that no entry is left out and none is written twice. When no name
  ends with a space, two entries written give the same line only if they are the same name
  with the same id; the lines of one group are then pairwise different. Two groups can
  still hold the same name with the same id, and then the same line is in the file twice.
\<close>

theorem one_declaration_per_entry:
  assumes "downloadInfo toCamel fetched oLogin oPlay oStatus = Ok p"
    and "ordersVisit om p" and "ordersVisit ow p"
  shows "main toCamel q fetched oLogin oPlay oStatus om ow None =
       Exited 0 [] (Some (generatedFile (MaxLen om p) ow p))
     \<and> filter isDecl (generatedFile (MaxLen om p) ow p)
         = map (decl (MaxLen om p)) (writtenEntries ow p)
     \<and> length (filter isDecl (generatedFile (MaxLen om p) ow p)) =
         card (dom (Clientbound (Login p))) + card (dom (Serverbound (Login p))) +
         card (dom (Clientbound (Play p))) + card (dom (Serverbound (Play p))) +
         card (dom (Clientbound (Status p))) + card (dom (Serverbound (Status p)))
     \<and> distinct (rangeOver (loginC ow) (Clientbound (Login p)))
     \<and> set (rangeOver (loginC ow) (Clientbound (Login p))) = Map.graph (Clientbound (Login p))
     \<and> distinct (rangeOver (loginS ow) (Serverbound (Login p)))
     \<and> set (rangeOver (loginS ow) (Serverbound (Login p))) = Map.graph (Serverbound (Login p))
     \<and> distinct (rangeOver (playC ow) (Clientbound (Play p)))
     \<and> set (rangeOver (playC ow) (Clientbound (Play p))) = Map.graph (Clientbound (Play p))
     \<and> distinct (rangeOver (playS ow) (Serverbound (Play p)))
     \<and> set (rangeOver (playS ow) (Serverbound (Play p))) = Map.graph (Serverbound (Play p))
     \<and> distinct (rangeOver (statusC ow) (Clientbound (Status p)))
     \<and> set (rangeOver (statusC ow) (Clientbound (Status p))) = Map.graph (Clientbound (Status p))
     \<and> distinct (rangeOver (statusS ow) (Serverbound (Status p)))
     \<and> set (rangeOver (statusS ow) (Serverbound (Status p))) = Map.graph (Serverbound (Status p))
     \<and> ((\<forall>k \<in> allNames p. \<not> suffix '' '' k) \<longrightarrow>
          inj_on (decl (MaxLen om p)) (set (writtenEntries ow p))
          \<and> distinct (map (decl (MaxLen om p)) (rangeOver (loginC ow) (Clientbound (Login p))))
          \<and> distinct (map (decl (MaxLen om p)) (rangeOver (loginS ow) (Serverbound (Login p))))
          \<and> distinct (map (decl (MaxLen om p)) (rangeOver (playC ow) (Clientbound (Play p))))
          \<and> distinct (map (decl (MaxLen om p)) (rangeOver (playS ow) (Serverbound (Play p))))
          \<and> distinct (map (decl (MaxLen om p)) (rangeOver (statusC ow) (Clientbound (Status p))))
          \<and> distinct (map (decl (MaxLen om p)) (rangeOver (statusS ow) (Serverbound (Status p)))))"
proof -
  have d: "\<And>ord m. visits ord m \<Longrightarrow> distinct (rangeOver ord m)"
    using distinct_rangeOver_keys distinct_map visits_def by blast
  have n: "length (filter isDecl (generatedFile (MaxLen om p) ow p)) =
         card (dom (Clientbound (Login p))) + card (dom (Serverbound (Login p))) +
         card (dom (Clientbound (Play p))) + card (dom (Serverbound (Play p))) +
         card (dom (Clientbound (Status p))) + card (dom (Serverbound (Status p)))"
    using length_writtenEntries [OF assms(3)] by (simp add: declarations_of_generatedFile)
  have v: "visits (loginC ow) (Clientbound (Login p))" "visits (loginS ow) (Serverbound (Login p))"
    "visits (playC ow) (Clientbound (Play p))" "visits (playS ow) (Serverbound (Play p))"
    "visits (statusC ow) (Clientbound (Status p))" "visits (statusS ow) (Serverbound (Status p))"
    using assms(3) by (simp_all add: ordersVisit_def)
  have lines: "inj_on (decl (MaxLen om p)) (set (writtenEntries ow p))
          \<and> distinct (map (decl (MaxLen om p)) (rangeOver (loginC ow) (Clientbound (Login p))))
          \<and> distinct (map (decl (MaxLen om p)) (rangeOver (loginS ow) (Serverbound (Login p))))
          \<and> distinct (map (decl (MaxLen om p)) (rangeOver (playC ow) (Clientbound (Play p))))
          \<and> distinct (map (decl (MaxLen om p)) (rangeOver (playS ow) (Serverbound (Play p))))
          \<and> distinct (map (decl (MaxLen om p)) (rangeOver (statusC ow) (Clientbound (Status p))))
          \<and> distinct (map (decl (MaxLen om p)) (rangeOver (statusS ow) (Serverbound (Status p))))"
    if h: "\<forall>k \<in> allNames p. \<not> suffix '' '' k"
  proof -
    note i = decl_inj_on_written [OF assms(2) h, of ow]
    show ?thesis
      by (intro conjI)
        (rule i, rule group_lines_distinct [OF i d [OF v(1)] rangeOver_written(1)],
          rule group_lines_distinct [OF i d [OF v(2)] rangeOver_written(2)],
          rule group_lines_distinct [OF i d [OF v(3)] rangeOver_written(3)],
          rule group_lines_distinct [OF i d [OF v(4)] rangeOver_written(4)],
          rule group_lines_distinct [OF i d [OF v(5)] rangeOver_written(5)],
          rule group_lines_distinct [OF i d [OF v(6)] rangeOver_written(6)])
  qed
  have first: "main toCamel q fetched oLogin oPlay oStatus om ow None =
       Exited 0 [] (Some (generatedFile (MaxLen om p) ow p))"
    by (rule main_generates [OF assms(1,2)])
  show ?thesis
    by (intro conjI impI)
      (rule first, rule declarations_of_generatedFile, rule n,
        rule d [OF v(1)], rule visits_graph [OF v(1)],
        rule d [OF v(2)], rule visits_graph [OF v(2)],
        rule d [OF v(3)], rule visits_graph [OF v(3)],
        rule d [OF v(4)], rule visits_graph [OF v(4)],
        rule d [OF v(5)], rule visits_graph [OF v(5)],
        rule d [OF v(6)], rule visits_graph [OF v(6)],
        (rule lines [THEN conjunct1], assumption),
        (rule lines [THEN conjunct2, THEN conjunct1], assumption),
        (rule lines [THEN conjunct2, THEN conjunct2, THEN conjunct1], assumption),
        (rule lines [THEN conjunct2, THEN conjunct2, THEN conjunct2, THEN conjunct1], assumption),
        (rule lines [THEN conjunct2, THEN conjunct2, THEN conjunct2, THEN conjunct2, THEN conjunct1],
          assumption),
        (rule lines [THEN conjunct2, THEN conjunct2, THEN conjunct2, THEN conjunct2, THEN conjunct2,
          THEN conjunct1], assumption),
        (rule lines [THEN conjunct2, THEN conjunct2, THEN conjunct2, THEN conjunct2, THEN conjunct2,
          THEN conjunct2], assumption))
qed

lemma example_allNames:
  "allNames exampleIDs =
     {''Disconnect'', ''LoginStart'', ''SpawnEntity'', ''ChatClientbound'', ''ChatServerbound'', ''PingStart''}"
  by (auto simp: allNames_def exampleIDs_def)

lemma example_no_trailing_space: "\<forall>k \<in> allNames exampleIDs. \<not> suffix '' '' k"
  by (simp add: example_allNames suffix_Cons)

theorem one_declaration_per_entry_witness:
  "downloadInfo ToCamel (Inr exampleDoc) [''Disconnect''] [''Chat'', ''SpawnEntity''] [] = Ok exampleIDs
   \<and> ordersVisit exampleOrders exampleIDs
   \<and> main ToCamel quotePrintable (Inr exampleDoc) [''Disconnect''] [''Chat'', ''SpawnEntity''] []
        exampleOrders exampleOrders None
      = Exited 0 [] (Some (generatedFile 15 exampleOrders exampleIDs))
   \<and> length (filter isDecl (generatedFile 15 exampleOrders exampleIDs)) = 6
   \<and> set (rangeOver (playC exampleOrders) (Clientbound (Play exampleIDs)))
       = Map.graph (Clientbound (Play exampleIDs))
   \<and> {k \<in> allNames exampleIDs. suffix '' '' k} = {}
   \<and> distinct (map (decl 15) (rangeOver (playC exampleOrders) (Clientbound (Play exampleIDs))))"
proof -
  have s: "{k \<in> allNames exampleIDs. suffix '' '' k} = {}"
    using example_no_trailing_space by blast
  have c: "card (dom (Clientbound (Login exampleIDs))) + card (dom (Serverbound (Login exampleIDs))) +
         card (dom (Clientbound (Play exampleIDs))) + card (dom (Serverbound (Play exampleIDs))) +
         card (dom (Clientbound (Status exampleIDs))) + card (dom (Serverbound (Status exampleIDs))) = 6"
    by (simp add: exampleIDs_def)
  note t = one_declaration_per_entry [OF exampleDoc_download exampleOrders_visit exampleOrders_visit,
        of quotePrintable, unfolded example_MaxLen c]
  note l = t [THEN conjunct2, THEN conjunct2, THEN conjunct2, THEN conjunct2, THEN conjunct2,
          THEN conjunct2, THEN conjunct2, THEN conjunct2, THEN conjunct2, THEN conjunct2,
          THEN conjunct2, THEN conjunct2, THEN conjunct2, THEN conjunct2, THEN conjunct2,
          THEN mp, OF example_no_trailing_space]
  show ?thesis
    by (intro conjI)
      (rule exampleDoc_download, rule exampleOrders_visit, rule t [THEN conjunct1],
        rule t [THEN conjunct2, THEN conjunct2, THEN conjunct1],
        rule t [THEN conjunct2, THEN conjunct2, THEN conjunct2, THEN conjunct2, THEN conjunct2,
          THEN conjunct2, THEN conjunct2, THEN conjunct2, THEN conjunct1],
        rule s,
        rule l [THEN conjunct2, THEN conjunct2, THEN conjunct2, THEN conjunct1])
qed

section \<open>The same line twice\<close>

lemma sameLineDoc_download:
  "downloadInfo ToCamel (Inr sameLineDoc) [''Disconnect''] [''Disconnect''] [] =
     Ok \<lparr>Login = \<lparr>Clientbound = [''Disconnect'' \<mapsto> ''0x00''], Serverbound = Map.empty\<rparr>,
         Play = \<lparr>Clientbound = [''Disconnect'' \<mapsto> ''0x00''], Serverbound = Map.empty\<rparr>,
         Status = \<lparr>Clientbound = Map.empty, Serverbound = Map.empty\<rparr>\<rparr>"
  by (simp add: downloadInfo_def unpackMapping_def sameLineDoc_def phaseSchema_def
      leafMappings_packetEntry bindR_def ToCamel_examples EnsureUniqueNames_def rangeOver_def
      resolveName_def)

theorem same_line_twice_counterexample:
  "main ToCamel quotePrintable (Inr sameLineDoc) [''Disconnect''] [''Disconnect''] []
     crossPhaseOrders crossPhaseOrders None
   = Exited 0 []
       (Some (header @ constBlock 10 [(''Disconnect'', ''0x00'')] [] [(''Disconnect'', ''0x00'')] []
                [] []))
   \<and> filter isDecl
        (header @ constBlock 10 [(''Disconnect'', ''0x00'')] [] [(''Disconnect'', ''0x00'')] [] [] [])
      = [''  Disconnect PktID = 0x00'' @ nl, ''  Disconnect PktID = 0x00'' @ nl]
   \<and> \<not> distinct (filter isDecl
        (header @ constBlock 10 [(''Disconnect'', ''0x00'')] [] [(''Disconnect'', ''0x00'')] [] [] []))"
proof -
  let ?p = "\<lparr>Login = \<lparr>Clientbound = [''Disconnect'' \<mapsto> ''0x00''], Serverbound = Map.empty\<rparr>,
         Play = \<lparr>Clientbound = [''Disconnect'' \<mapsto> ''0x00''], Serverbound = Map.empty\<rparr>,
         Status = \<lparr>Clientbound = Map.empty, Serverbound = Map.empty\<rparr>\<rparr>"
  have v: "ordersVisit crossPhaseOrders ?p"
    by (simp add: ordersVisit_def visits_def crossPhaseOrders_def)
  have mx: "MaxLen crossPhaseOrders ?p = 10"
    by (simp add: MaxLen_def crossPhaseOrders_def rangeOver_def longer_def)
  have e: "rangeOver (loginC crossPhaseOrders) (Clientbound (Login ?p)) = [(''Disconnect'', ''0x00'')]"
    "rangeOver (loginS crossPhaseOrders) (Serverbound (Login ?p)) = []"
    "rangeOver (playC crossPhaseOrders) (Clientbound (Play ?p)) = [(''Disconnect'', ''0x00'')]"
    "rangeOver (playS crossPhaseOrders) (Serverbound (Play ?p)) = []"
    "rangeOver (statusC crossPhaseOrders) (Clientbound (Status ?p)) = []"
    "rangeOver (statusS crossPhaseOrders) (Serverbound (Status ?p)) = []"
    by (simp_all add: crossPhaseOrders_def rangeOver_def)
  have m: "main ToCamel quotePrintable (Inr sameLineDoc) [''Disconnect''] [''Disconnect''] []
     crossPhaseOrders crossPhaseOrders None
   = Exited 0 []
       (Some (header @ constBlock 10 [(''Disconnect'', ''0x00'')] [] [(''Disconnect'', ''0x00'')] []
                [] []))"
    using main_writes [OF sameLineDoc_download v, of quotePrintable crossPhaseOrders]
    by (simp only: mx e)
  have f: "filter isDecl
        (header @ constBlock 10 [(''Disconnect'', ''0x00'')] [] [(''Disconnect'', ''0x00'')] [] [] [])
      = [''  Disconnect PktID = 0x00'' @ nl, ''  Disconnect PktID = 0x00'' @ nl]"
    by (simp only: filter_isDecl_file) (simp add: decl_def padded_def)
  have n: "\<not> distinct (filter isDecl
        (header @ constBlock 10 [(''Disconnect'', ''0x00'')] [] [(''Disconnect'', ''0x00'')] [] [] []))"
    by (simp only: f) simp
  show ?thesis by (rule conjI [OF m conjI [OF f n]])
qed

end
